theory Spec2Isabelle
  imports Main "HOL-Library.Sublist" "HOL-Library.Log_Nat"
begin

section \<open>Python values\<close>

text \<open>
  The scripts are Python 3. A \<open>str\<close> is a sequence of Unicode code points, so a string
  is a list of code points (natural numbers), not of bytes. ASCII literals of the source
  are written through \<open>ustr\<close>.
\<close>

type_synonym ustring = "nat list"

definition ustr :: "string \<Rightarrow> ustring" where
  "ustr s = map of_char s"

datatype py_error = ZeroDivisionError | ValueError

text \<open>
  \<open>str.isspace\<close>, which is also the class \<open>\s\<close> of \<open>re\<close> on \<open>str\<close> patterns and the set
  removed by \<open>str.strip()\<close>: the code points of CPython's whitespace table.
\<close>

definition isspace :: "nat \<Rightarrow> bool" where
  "isspace c \<longleftrightarrow>
     (9 \<le> c \<and> c \<le> 13) \<or> (28 \<le> c \<and> c \<le> 32) \<or> c = 133 \<or> c = 160 \<or> c = 5760 \<or>
     (8192 \<le> c \<and> c \<le> 8202) \<or> c = 8232 \<or> c = 8233 \<or> c = 8239 \<or> c = 8287 \<or> c = 12288"

text \<open>\<open>s.strip()\<close> and \<open>s.strip(chars)\<close>: both ends, as long as the predicate holds.\<close>

definition strip_where :: "(nat \<Rightarrow> bool) \<Rightarrow> ustring \<Rightarrow> ustring" where
  "strip_where p s = rev (dropWhile p (rev (dropWhile p s)))"

definition py_strip :: "ustring \<Rightarrow> ustring" where
  "py_strip s = strip_where isspace s"

definition py_strip_chars :: "ustring \<Rightarrow> ustring \<Rightarrow> ustring" where
  "py_strip_chars chars s = strip_where (\<lambda>c. c \<in> set chars) s"

text \<open>
  \<open>s.replace(old, new)\<close>: the occurrences of \<open>old\<close> are found from the left and do not
  overlap. An empty \<open>old\<close> matches before every character and at the end.
\<close>

function py_replace :: "ustring \<Rightarrow> ustring \<Rightarrow> ustring \<Rightarrow> ustring" where
  "py_replace old new s =
     (if old = [] then new @ concat (map (\<lambda>c. c # new) s)
      else if s = [] then []
      else if prefix old s then new @ py_replace old new (drop (length old) s)
      else hd s # py_replace old new (tl s))"
  by pat_completeness auto
termination
  by (relation "measure (\<lambda>(old, new, s). length s)") auto

declare py_replace.simps [simp del]

section \<open>Disambiguation suffix (HPLC/plot\_hplc.py, HPLC/make\_hplc\_pptx.py)\<close>

text \<open>
  \<open>plot_hplc\<close> renames a colliding Page 3 column \<open>c\<close> to \<open>f"{c}_p3distinct"\<close>;
  \<open>add_page_constructs\<close> builds the same name as \<open>c + distinct_suffix\<close>.
\<close>

definition p3distinct :: ustring where
  "p3distinct = ustr ''_p3distinct''"

definition apply_suffix :: "ustring \<Rightarrow> ustring \<Rightarrow> ustring" where
  "apply_suffix c sfx = c @ sfx"

text \<open>
  The regular expression \<open>(?i)^\s*HPLC\s*chromatogram[s]?\s*[-:]*\s*\<close> of
  \<open>_clean_construct_name\<close>. Every quantified part is followed by something it cannot
  match itself or by the end of the pattern, so the greedy match is the only one. Under
  \<open>(?i)\<close> each letter of the two words matches its upper and lower case form, and the
  class \<open>[s]\<close> also matches U+017F.
\<close>

fun match_ci :: "ustring \<Rightarrow> ustring \<Rightarrow> ustring option" where
  "match_ci [] s = Some s"
| "match_ci (p # ps) [] = None"
| "match_ci (p # ps) (c # cs) = (if c = p \<or> c + 32 = p then match_ci ps cs else None)"

definition sub_hplc_prefix :: "ustring \<Rightarrow> ustring" where
  "sub_hplc_prefix s =
     (case match_ci (ustr ''hplc'') (dropWhile isspace s) of
        None \<Rightarrow> s
      | Some s2 \<Rightarrow>
         (case match_ci (ustr ''chromatogram'') (dropWhile isspace s2) of
            None \<Rightarrow> s
          | Some s4 \<Rightarrow>
             (let s5 = (case s4 of [] \<Rightarrow> [] | c # r \<Rightarrow> if c = 115 \<or> c = 83 \<or> c = 383 then r else s4)
              in dropWhile isspace (dropWhile (\<lambda>c. c = 45 \<or> c = 58) (dropWhile isspace s5)))))"

definition clean_construct_name :: "ustring \<Rightarrow> ustring" where
  "clean_construct_name name =
     (let s = py_replace p3distinct [] name;
          s = sub_hplc_prefix s;
          s = py_strip_chars (ustr ''-:'') (py_strip s)
      in py_strip s)"

section \<open>Name normalizers\<close>

text \<open>
  \<open>str.lower\<close> and the class \<open>\w\<close> of \<open>re\<close> depend on the Unicode tables of the Python
  build, which are not part of the repository: the normalizers take them as parameters
  (\<open>lower\<close> for \<open>str.lower\<close>, \<open>alnum\<close> for \<open>str.isalnum\<close>; \<open>\w\<close> is \<open>alnum\<close> or the
  underscore). On ASCII text they are the two functions below.
\<close>

definition ascii_lower :: "ustring \<Rightarrow> ustring" where
  "ascii_lower s = map (\<lambda>c. if 65 \<le> c \<and> c \<le> 90 then c + 32 else c) s"

definition ascii_alnum :: "nat \<Rightarrow> bool" where
  "ascii_alnum c \<longleftrightarrow> (48 \<le> c \<and> c \<le> 57) \<or> (65 \<le> c \<and> c \<le> 90) \<or> (97 \<le> c \<and> c \<le> 122)"

subsection \<open>\<open>_normalize_name_for_match\<close> (MALDI/plot\_maldi\_constructs.py)\<close>

text \<open>The characters U+200B, U+200C, U+200D and U+FEFF that the first \<open>re.sub\<close> removes.\<close>

definition zero_width :: "nat \<Rightarrow> bool" where
  "zero_width c \<longleftrightarrow> c = 8203 \<or> c = 8204 \<or> c = 8205 \<or> c = 65279"

text \<open>
  \<open>re.sub(r"\(([^)]*)\)", _paren_fix, s2)\<close>: the matches are found from the left and do
  not overlap; one starts at an opening parenthesis that has a closing one somewhere
  after it and ends at the first closing one. \<open>paren_fix\<close> scans outside a match,
  \<open>paren_group\<close> inside one, where every underscore becomes a slash.
\<close>

fun paren_fix :: "ustring \<Rightarrow> ustring" and paren_group :: "ustring \<Rightarrow> ustring" where
  "paren_fix [] = []"
| "paren_fix (c # cs) = (if c = 40 \<and> 41 \<in> set cs then 40 # paren_group cs else c # paren_fix cs)"
| "paren_group [] = []"
| "paren_group (c # cs) =
     (if c = 41 then 41 # paren_fix cs else (if c = 95 then 47 else c) # paren_group cs)"

definition normalize_name_for_match :: "(ustring \<Rightarrow> ustring) \<Rightarrow> ustring \<Rightarrow> ustring" where
  "normalize_name_for_match lower s =
     (let s2 = filter (\<lambda>c. \<not> zero_width c) s;
          s2 = filter (\<lambda>c. c \<noteq> 32) (py_strip s2);
          s2 = paren_fix s2
      in lower s2)"

text \<open>
  What the theorems use of \<open>str.lower\<close>. A character is inert when it is whitespace, a
  parenthesis or the underscore: lowering leaves it alone and works on the text before
  and after it separately. Lowering keeps the empty string and no other string empty,
  changes nothing when applied again, and makes no inert or zero-width character out of
  other characters.
\<close>

definition inert :: "nat \<Rightarrow> bool" where
  "inert c \<longleftrightarrow> isspace c \<or> c = 40 \<or> c = 41 \<or> c = 95"

definition lower_ok :: "(ustring \<Rightarrow> ustring) \<Rightarrow> bool" where
  "lower_ok lower \<longleftrightarrow>
     lower [] = []
     \<and> (\<forall>s. s \<noteq> [] \<longrightarrow> lower s \<noteq> [])
     \<and> (\<forall>s. lower (lower s) = lower s)
     \<and> (\<forall>a c b. inert c \<longrightarrow> lower (a @ c # b) = lower a @ c # lower b)
     \<and> (\<forall>s. (\<forall>c \<in> set s. \<not> inert c \<and> \<not> zero_width c)
            \<longrightarrow> (\<forall>c \<in> set (lower s). \<not> inert c \<and> \<not> zero_width c))"

subsection \<open>\<open>_norm_name\<close> and the ordering of the images (HPLC/make\_hplc\_pptx.py)\<close>

text \<open>\<open>re.sub(r"p+", r, s)\<close> for a class \<open>p\<close> of characters: every maximal run becomes \<open>r\<close>.\<close>

function sub_runs :: "(nat \<Rightarrow> bool) \<Rightarrow> ustring \<Rightarrow> ustring \<Rightarrow> ustring" where
  "sub_runs p r [] = []"
| "sub_runs p r (c # cs) =
     (if p c then r @ sub_runs p r (dropWhile p cs) else c # sub_runs p r cs)"
  by pat_completeness auto
termination
  by (relation "measure (\<lambda>(p, r, s). length s)") (auto simp: length_dropWhile_le less_Suc_eq_le)

definition norm_name :: "(nat \<Rightarrow> bool) \<Rightarrow> ustring \<Rightarrow> ustring" where
  "norm_name alnum s =
     (let s = py_strip s;
          s = py_replace (ustr '' '') (ustr ''_'') s;
          s = sub_runs (\<lambda>c. \<not> (alnum c \<or> c = 95 \<or> c = 45)) (ustr ''_'') s;
          s = sub_runs (\<lambda>c. c = 95) (ustr ''_'') s
      in py_strip_chars (ustr ''_'') s)"

text \<open>
  \<open>base_name\<close>: \<open>re.sub(r"_chrom$", "", stem)\<close>. The \<open>$\<close> matches at the end of the string
  and before a newline that ends it. An image is given by the stem of its file name.
\<close>

definition base_name :: "ustring \<Rightarrow> ustring" where
  "base_name stem =
     (if suffix (ustr ''_chrom'') stem then take (length stem - 6) stem
      else if suffix (ustr ''_chrom'' @ [10]) stem then take (length stem - 7) stem @ [10]
      else stem)"

text \<open>\<open>img_map = { _norm_name(base_name(p)): p for p in imgs }\<close>: a later image replaces an earlier one.\<close>

definition img_map_of :: "(nat \<Rightarrow> bool) \<Rightarrow> ustring list \<Rightarrow> (ustring \<rightharpoonup> ustring)" where
  "img_map_of alnum imgs = fold (\<lambda>p m. m(norm_name alnum (base_name p) \<mapsto> p)) imgs Map.empty"

text \<open>
  \<open>add_page_constructs\<close>, on the names read from the page, with the state
  \<open>(ordered_imgs, seen_keys)\<close>. An absent page is the empty list of names; an empty
  \<open>distinct_suffix\<close> counts as none.
\<close>

fun add_page_constructs ::
  "(nat \<Rightarrow> bool) \<Rightarrow> (ustring \<rightharpoonup> ustring) \<Rightarrow> ustring option \<Rightarrow> ustring list
     \<Rightarrow> ustring list \<times> ustring set \<Rightarrow> ustring list \<times> ustring set" where
  "add_page_constructs alnum img_map distinct_suffix [] st = st"
| "add_page_constructs alnum img_map distinct_suffix (c # cs) (ordered_imgs, seen_keys) =
     (let dist_norm = (case distinct_suffix of
                         None \<Rightarrow> None
                       | Some sfx \<Rightarrow> if sfx = [] then None else Some (norm_name alnum (c @ sfx)))
      in case (case dist_norm of
                 None \<Rightarrow> None
               | Some d \<Rightarrow> (case img_map d of
                              None \<Rightarrow> None
                            | Some p \<Rightarrow> if d \<in> seen_keys then None else Some (d, p))) of
           Some (d, p) \<Rightarrow>
             add_page_constructs alnum img_map distinct_suffix cs
               (ordered_imgs @ [p], insert d seen_keys)
         | None \<Rightarrow>
             (let norm = norm_name alnum c
              in case img_map norm of
                   Some p \<Rightarrow>
                     if norm \<in> seen_keys
                     then add_page_constructs alnum img_map distinct_suffix cs (ordered_imgs, seen_keys)
                     else add_page_constructs alnum img_map distinct_suffix cs
                            (ordered_imgs @ [p], insert norm seen_keys)
                 | None \<Rightarrow>
                     add_page_constructs alnum img_map distinct_suffix cs (ordered_imgs, seen_keys)))"

text \<open>The fallback pass over the images that no page named.\<close>

fun add_remaining ::
  "(nat \<Rightarrow> bool) \<Rightarrow> ustring list \<Rightarrow> ustring list \<times> ustring set \<Rightarrow> ustring list \<times> ustring set" where
  "add_remaining alnum [] st = st"
| "add_remaining alnum (p # ps) (remaining, seen_keys) =
     (let norm = norm_name alnum (base_name p)
      in if norm \<in> seen_keys then add_remaining alnum ps (remaining, seen_keys)
         else add_remaining alnum ps (remaining @ [p], insert norm seen_keys))"

text \<open>
  The reordering of \<open>main\<close>: the pages in order, each with its suffix, then the fallback.
\<close>

definition order_images ::
  "(nat \<Rightarrow> bool) \<Rightarrow> ustring list \<Rightarrow> (ustring list \<times> ustring option) list \<Rightarrow> ustring list" where
  "order_images alnum imgs pages =
     (let img_map = img_map_of alnum imgs;
          (ordered_imgs, seen_keys) =
             fold (\<lambda>(constructs, sfx) st. add_page_constructs alnum img_map sfx constructs st)
               pages ([], {});
          (remaining, seen_keys) = add_remaining alnum imgs ([], seen_keys)
      in ordered_imgs @ remaining)"

section \<open>Python floats\<close>

text \<open>
  A Python \<open>float\<close> is an IEEE 754 binary64 number. A finite one is a rational, and every
  arithmetic operation returns the exact result rounded to the nearest number with a
  53-bit significand, ties to the even significand. \<open>fl\<close> is that rounding. The exponent
  range is not modelled (no overflow, no subnormal numbers): the model is the program as
  long as every nonzero float it computes has a magnitude between \<open>2^-1022\<close> and
  \<open>2^1024\<close>, which holds for the inch and EMU quantities of a slide.
\<close>

definition round_half_even :: "rat \<Rightarrow> int" where
  "round_half_even m =
     (let f = \<lfloor>m\<rfloor>; d = m - of_int f
      in if d < 1/2 then f else if 1/2 < d then f + 1 else if even f then f else f + 1)"

definition float_exponent :: "rat \<Rightarrow> int" where
  "float_exponent x =
     (let (p, q) = quotient_of \<bar>x\<bar>; k = bitlen p - bitlen q
      in (if 2 powi k \<le> \<bar>x\<bar> then k else k - 1) - 52)"

definition fl :: "rat \<Rightarrow> rat" where
  "fl x = (if x = 0 then 0
           else let e = float_exponent x
                in sgn x * (of_int (round_half_even (\<bar>x\<bar> / 2 powi e)) * 2 powi e))"

definition py_int :: "rat \<Rightarrow> int" where
  "py_int x = (if 0 \<le> x then \<lfloor>x\<rfloor> else \<lceil>x\<rceil>)"

text \<open>\<open>float(k)\<close>, the four operations on floats, and \<open>a / b\<close> on two integers.\<close>

definition float_of_int :: "int \<Rightarrow> rat" where
  "float_of_int k = fl (of_int k)"

definition fadd :: "rat \<Rightarrow> rat \<Rightarrow> rat" where
  "fadd a b = fl (a + b)"

definition fsub :: "rat \<Rightarrow> rat \<Rightarrow> rat" where
  "fsub a b = fl (a - b)"

definition fmul :: "rat \<Rightarrow> rat \<Rightarrow> rat" where
  "fmul a b = fl (a * b)"

definition fdiv :: "rat \<Rightarrow> rat \<Rightarrow> rat" where
  "fdiv a b = fl (a / b)"

definition true_div :: "int \<Rightarrow> int \<Rightarrow> rat" where
  "true_div a b = fl (of_int a / of_int b)"

text \<open>\<open>pptx.util.Inches(x)\<close> is \<open>int(x * 914400)\<close>, a length in EMU.\<close>

definition Inches :: "rat \<Rightarrow> int" where
  "Inches x = py_int (fmul x 914400)"

section \<open>Python sequences\<close>

text \<open>\<open>range(start, stop, step)\<close> for a nonzero step (a zero step raises ValueError).\<close>

function py_range :: "int \<Rightarrow> int \<Rightarrow> int \<Rightarrow> int list" where
  "py_range i stop step =
     (if (0 < step \<and> i < stop) \<or> (step < 0 \<and> stop < i)
      then i # py_range (i + step) stop step else [])"
  by pat_completeness auto
termination
  by (relation "measure (\<lambda>(i, stop, step). nat (if 0 < step then stop - i else i - stop))") auto

declare py_range.simps [simp del]

text \<open>\<open>xs[lo:hi]\<close>: a negative index counts from the end, and both are clamped.\<close>

definition slice_index :: "nat \<Rightarrow> int \<Rightarrow> nat" where
  "slice_index n i = (if i < 0 then nat (max 0 (int n + i)) else min (nat i) n)"

definition py_slice :: "'a list \<Rightarrow> int \<Rightarrow> int \<Rightarrow> 'a list" where
  "py_slice xs lo hi =
     (let l = slice_index (length xs) lo; h = slice_index (length xs) hi
      in take (h - l) (drop l xs))"

section \<open>Slide decks (python-pptx)\<close>

text \<open>
  A deck has a slide size in EMU and a list of slides; a slide is the list of its shapes
  in the order they were added. \<open>add_picture(path, left, top)\<close> reads the image file and
  gives the picture its native size: the files are the function \<open>native\<close> from a path to
  the native width and height in EMU.
\<close>

datatype shape =
    is_Picture: Picture (shape_path: ustring) (shape_left: int) (shape_top: int)
      (shape_width: int) (shape_height: int)
  | Textbox (shape_text: ustring) (shape_left: int) (shape_top: int)
      (shape_width: int) (shape_height: int)

record presentation =
  slide_width :: int
  slide_height :: int
  slides :: "shape list list"

type_synonym item = "ustring \<times> ustring"

type_synonym images = "ustring \<Rightarrow> int \<times> int"

section \<open>Grid slides of THT/add\_images\_to\_ppt.py\<close>

text \<open>
  The two fit policies, as the loops of \<open>add_fill_grid_slide_no_captions\<close> (contain:
  \<open>min\<close> of the two scale factors) and of \<open>add_grid_slides\<close> and
  \<open>add_captioned_grid_slide\<close> (cover: \<open>max\<close>) compute them: new width and height of a
  picture of native size \<open>pic_w\<close>, \<open>pic_h\<close> in a cell \<open>cell_w\<close>, \<open>cell_h\<close>.
\<close>

definition contain_fit :: "int \<Rightarrow> int \<Rightarrow> int \<Rightarrow> int \<Rightarrow> py_error + (int \<times> int)" where
  "contain_fit cell_w cell_h pic_w pic_h =
     (if pic_w = 0 \<or> pic_h = 0 then Inl ZeroDivisionError
      else let scale_w = fdiv (float_of_int cell_w) (float_of_int pic_w);
               scale_h = fdiv (float_of_int cell_h) (float_of_int pic_h);
               scale = min scale_w scale_h;
               new_w = py_int (fmul (float_of_int pic_w) scale);
               new_h = py_int (fmul (float_of_int pic_h) scale)
           in Inr (new_w, new_h))"

definition cover_fit :: "int \<Rightarrow> int \<Rightarrow> int \<Rightarrow> int \<Rightarrow> py_error + (int \<times> int)" where
  "cover_fit cell_w cell_h pic_w pic_h =
     (if pic_w = 0 \<or> pic_h = 0 then Inl ZeroDivisionError
      else let scale_w = fdiv (float_of_int cell_w) (float_of_int pic_w);
               scale_h = fdiv (float_of_int cell_h) (float_of_int pic_h);
               scale = max scale_w scale_h;
               new_w = py_int (fmul (float_of_int pic_w) scale);
               new_h = py_int (fmul (float_of_int pic_h) scale)
           in Inr (new_w, new_h))"

text \<open>The geometry both single-slide functions compute before their loop.\<close>

record grid =
  g_cell_w :: int
  g_cell_h :: int
  g_img_h :: int
  g_hspace :: int
  g_vspace :: int
  g_origin_left :: int
  g_origin_top :: int

text \<open>\<open>pic.left = int(left + (cell_w - new_w) / 2)\<close>.\<close>

definition centred :: "int \<Rightarrow> int \<Rightarrow> int \<Rightarrow> int" where
  "centred left cell new = py_int (fadd (float_of_int left) (true_div (cell - new) 2))"

text \<open>Body of the loop of \<open>add_fill_grid_slide_no_captions\<close> for item \<open>i\<close>.\<close>

definition fill_cell :: "images \<Rightarrow> grid \<Rightarrow> int \<Rightarrow> int \<Rightarrow> ustring \<Rightarrow> int \<Rightarrow> item \<Rightarrow> py_error + shape list" where
  "fill_cell native g cols rows fill_order i it =
     (let (r, c) = (if fill_order = ustr ''column'' then (i mod rows, i div rows)
                    else (i div cols, i mod cols));
          left = g_origin_left g + c * (g_cell_w g + g_hspace g);
          top = g_origin_top g + r * (g_cell_h g + g_vspace g);
          (pic_w, pic_h) = native (snd it)
      in case contain_fit (g_cell_w g) (g_cell_h g) pic_w pic_h of
           Inl e \<Rightarrow> Inl e
         | Inr (new_w, new_h) \<Rightarrow>
             Inr [Picture (snd it) (centred left (g_cell_w g) new_w) (centred top (g_cell_h g) new_h)
                    new_w new_h])"


text \<open>\<open>for i, item in enumerate(items): body\<close>, stopping at the first exception.\<close>

fun enumerate_cells :: "(int \<Rightarrow> item \<Rightarrow> py_error + shape list) \<Rightarrow> int \<Rightarrow> item list \<Rightarrow> py_error + shape list" where
  "enumerate_cells body i [] = Inr []"
| "enumerate_cells body i (it # its) =
     (case body i it of
        Inl e \<Rightarrow> Inl e
      | Inr shs \<Rightarrow>
          (case enumerate_cells body (i + 1) its of
             Inl e \<Rightarrow> Inl e
           | Inr rest \<Rightarrow> Inr (shs @ rest)))"


definition add_fill_grid_slide_no_captions ::
  "images \<Rightarrow> presentation \<Rightarrow> item list \<Rightarrow> int \<Rightarrow> int \<Rightarrow> rat \<Rightarrow> rat \<Rightarrow> rat \<Rightarrow> ustring
     \<Rightarrow> py_error + presentation" where
  "add_fill_grid_slide_no_captions native prs items cols rows margin_in hspace_in vspace_in fill_order =
     (let slide_w = slide_width prs; slide_h = slide_height prs;
          margin = Inches margin_in; hspace = Inches hspace_in; vspace = Inches vspace_in;
          avail_w = slide_w - 2 * margin - hspace * (cols - 1);
          avail_h = slide_h - 2 * margin - vspace * (rows - 1)
      in if cols = 0 then Inl ZeroDivisionError
         else
           let cell_w = py_int (true_div avail_w cols);
               aspect_ratio = fdiv (13 / 2) 5;
               cell_h_tight = py_int (fdiv (float_of_int cell_w) aspect_ratio)
           in if rows = 0 then Inl ZeroDivisionError
              else
                let cell_h_max = py_int (true_div avail_h rows);
                    cell_h = min cell_h_tight cell_h_max;
                    grid_w = cell_w * cols + hspace * (cols - 1);
                    grid_h = cell_h * rows + vspace * (rows - 1);
                    g = \<lparr>g_cell_w = cell_w, g_cell_h = cell_h, g_img_h = cell_h, g_hspace = hspace,
                         vspace = vspace,
                         g_origin_left = py_int (true_div (slide_w - grid_w) 2),
                         g_origin_top = py_int (true_div (slide_h - grid_h) 2)\<rparr>
                in case enumerate_cells (fill_cell native g cols rows fill_order) 0
                          (py_slice items 0 (cols * rows)) of
                     Inl e \<Rightarrow> Inl e
                   | Inr shapes \<Rightarrow> Inr (prs\<lparr>slides := slides prs @ [shapes]\<rparr>))"

text \<open>
  \<open>add_fill_grid_slides_no_captions_paginated\<close>: one call of the single-slide function
  for each index of \<open>range(0, len(items), per_slide)\<close>.
\<close>

fun paginate_loop ::
  "(presentation \<Rightarrow> item list \<Rightarrow> py_error + presentation) \<Rightarrow> item list \<Rightarrow> int
     \<Rightarrow> presentation \<Rightarrow> int list \<Rightarrow> py_error + presentation" where
  "paginate_loop add_slide items per_slide prs [] = Inr prs"
| "paginate_loop add_slide items per_slide prs (i # is) =
     (case add_slide prs (py_slice items i (i + per_slide)) of
        Inl e \<Rightarrow> Inl e
      | Inr prs' \<Rightarrow> paginate_loop add_slide items per_slide prs' is)"

definition add_fill_grid_slides_no_captions_paginated ::
  "images \<Rightarrow> presentation \<Rightarrow> item list \<Rightarrow> int \<Rightarrow> int \<Rightarrow> rat \<Rightarrow> rat \<Rightarrow> rat \<Rightarrow> ustring
     \<Rightarrow> py_error + presentation" where
  "add_fill_grid_slides_no_captions_paginated native prs items cols rows margin_in hspace_in vspace_in fill_order =
     (let per_slide = cols * rows
      in if per_slide = 0 then Inl ValueError
         else paginate_loop
                (\<lambda>p chunk. add_fill_grid_slide_no_captions native p chunk cols rows
                               margin_in hspace_in vspace_in fill_order)
                items per_slide prs (py_range 0 (int (length items)) per_slide))"

section \<open>Deck builder of HPLC/make\_hplc\_pptx.py\<close>

text \<open>
  \<open>build_pptx\<close> works in inches, in floats, up to its calls of \<open>Inches\<close>. The part before
  the loop computes the picture size and the origin of the grid.
\<close>

record hplc_grid =
  g_fit_w :: rat
  g_fit_h :: rat
  g_hspace_in :: rat
  g_vspace_in :: rat
  g_margin_h :: rat
  g_margin_v :: rat

definition build_pptx_grid ::
  "int \<Rightarrow> int \<Rightarrow> rat option \<Rightarrow> rat option \<Rightarrow> rat \<Rightarrow> rat \<Rightarrow> py_error + hplc_grid" where
  "build_pptx_grid per_row per_col hspace_fixed vspace_fixed slide_w_in slide_h_in =
     (let target_ratio = fdiv (fl (18 / 10)) (3 / 2);
          base_margin_h = 1 / 4;
          base_margin_v = 1 / 4;
          hspace_in = (case hspace_fixed of
                         Some h \<Rightarrow> if 1 < per_row then max 0 h else 0
                       | None \<Rightarrow> 0);
          vspace_in = (case vspace_fixed of
                         Some v \<Rightarrow> if 1 < per_col then max 0 v else fl (5 / 100)
                       | None \<Rightarrow> fl (5 / 100));
          total_hspace = (if 1 < per_row then fmul (float_of_int (per_row - 1)) hspace_in else 0);
          total_vspace = (if 1 < per_col then fmul (float_of_int (per_col - 1)) vspace_in else 0);
          avail_w = fsub (fsub slide_w_in (fmul 2 base_margin_h)) total_hspace;
          avail_h = fsub (fsub slide_h_in (fmul 2 base_margin_v)) total_vspace
      in if per_row = 0 then Inl ZeroDivisionError
         else
           let slot_w = fdiv avail_w (float_of_int per_row)
           in if per_col = 0 then Inl ZeroDivisionError
              else
                let slot_h = fdiv avail_h (float_of_int per_col);
                    fit_w = min slot_w (fmul slot_h target_ratio);
                    fit_h = fdiv fit_w target_ratio;
                    grid_w = fadd (fmul (float_of_int per_row) fit_w) total_hspace;
                    grid_h = fadd (fmul (float_of_int per_col) fit_h) total_vspace;
                    margin_h = max 0 (fdiv (fsub slide_w_in grid_w) 2);
                    margin_v = max 0 (fdiv (fsub slide_h_in grid_h) 2)
                in Inr \<lparr>g_fit_w = fit_w, g_fit_h = fit_h, g_hspace_in = hspace_in,
                        g_vspace_in = vspace_in,
                        g_margin_h = margin_h, g_margin_v = margin_v\<rparr>)"

text \<open>
  The loop. Its state is the deck's finished slides, the shapes of the current slide
  (the variable \<open>slide\<close>) and the cursor \<open>r\<close>, \<open>c\<close>; \<open>n\<close> is \<open>len(imgs)\<close> and \<open>idx\<close> the index
  of the next image.
\<close>

fun place_imgs ::
  "hplc_grid \<Rightarrow> int \<Rightarrow> int \<Rightarrow> int \<Rightarrow> int \<Rightarrow> shape list list \<times> shape list \<times> int \<times> int
     \<Rightarrow> ustring list \<Rightarrow> shape list list \<times> shape list \<times> int \<times> int" where
  "place_imgs g per_row per_col n idx st [] = st"
| "place_imgs g per_row per_col n idx (finished, slide, r, c) (img # imgs) =
     (let img_left = fadd (g_margin_h g) (fmul (float_of_int c) (fadd (g_fit_w g) (g_hspace_in g)));
          img_top = fadd (g_margin_v g) (fmul (float_of_int r) (fadd (g_fit_h g) (g_vspace_in g)));
          slide = slide @ [Picture img (Inches img_left) (Inches img_top)
                             (Inches (g_fit_w g)) (Inches (g_fit_h g))];
          c = c + 1
      in if per_row \<le> c
         then if per_col \<le> r + 1 \<and> idx < n - 1
              then place_imgs g per_row per_col n (idx + 1) (finished @ [slide], [], 0, 0) imgs
              else place_imgs g per_row per_col n (idx + 1) (finished, slide, r + 1, 0) imgs
         else place_imgs g per_row per_col n (idx + 1) (finished, slide, r, c) imgs)"

definition build_pptx ::
  "ustring list \<Rightarrow> int \<Rightarrow> int \<Rightarrow> rat option \<Rightarrow> rat option \<Rightarrow> rat \<Rightarrow> rat
     \<Rightarrow> py_error + presentation" where
  "build_pptx imgs per_row per_col hspace_fixed vspace_fixed slide_w_in slide_h_in =
     (case build_pptx_grid per_row per_col hspace_fixed vspace_fixed slide_w_in slide_h_in of
        Inl e \<Rightarrow> Inl e
      | Inr g \<Rightarrow>
          (case place_imgs g per_row per_col (int (length imgs)) 0 ([], [], 0, 0) imgs of
             (finished, slide, r, c) \<Rightarrow>
               Inr \<lparr>slide_width = Inches slide_w_in, slide_height = Inches slide_h_in,
                    slides = finished @ [slide]\<rparr>))"

section \<open>Grid positions of MALDI/make\_maldi\_ppt.py\<close>

text \<open>
  \<open>grid_positions\<close>: the size of the grid, its origin (the top-left position, centred
  between the margins) and the positions of the cells, row by row.
\<close>

definition grid_size :: "int \<Rightarrow> int \<Rightarrow> rat \<Rightarrow> rat \<Rightarrow> rat \<Rightarrow> rat \<Rightarrow> rat \<times> rat" where
  "grid_size rows cols img_w_in img_h_in hspace_in vspace_in =
     (fadd (fmul (float_of_int cols) img_w_in) (fmul (float_of_int (cols - 1)) hspace_in),
      fadd (fmul (float_of_int rows) img_h_in) (fmul (float_of_int (rows - 1)) vspace_in))"

definition grid_origin ::
  "int \<Rightarrow> int \<Rightarrow> rat \<Rightarrow> rat \<Rightarrow> rat \<Rightarrow> rat \<Rightarrow> rat \<Rightarrow> rat \<Rightarrow> rat \<Rightarrow> rat \<times> rat" where
  "grid_origin rows cols img_w_in img_h_in hspace_in vspace_in page_w_in page_h_in margin_in =
     (let (grid_w, grid_h) = grid_size rows cols img_w_in img_h_in hspace_in vspace_in;
          left = fadd (fdiv (fsub (fsub page_w_in (fmul 2 margin_in)) grid_w) 2) margin_in;
          top = fadd (fdiv (fsub (fsub page_h_in (fmul 2 margin_in)) grid_h) 2) margin_in
      in (left, top))"

definition grid_positions ::
  "int \<Rightarrow> int \<Rightarrow> rat \<Rightarrow> rat \<Rightarrow> rat \<Rightarrow> rat \<Rightarrow> rat \<Rightarrow> rat \<Rightarrow> rat \<Rightarrow> (rat \<times> rat) list" where
  "grid_positions rows cols img_w_in img_h_in hspace_in vspace_in page_w_in page_h_in margin_in =
     (let (left, top) = grid_origin rows cols img_w_in img_h_in hspace_in vspace_in
                          page_w_in page_h_in margin_in
      in concat (map (\<lambda>r. map (\<lambda>c. (fadd left (fmul (float_of_int c) (fadd img_w_in hspace_in)),
                                      fadd top (fmul (float_of_int r) (fadd img_h_in vspace_in))))
                              (py_range 0 cols 1))
                     (py_range 0 rows 1)))"

section \<open>Vocabulary of the layout theorems\<close>

text \<open>Every picture to be placed has a nonzero native width and height.\<close>

definition native_ok :: "images \<Rightarrow> item list \<Rightarrow> bool" where
  "native_ok native items \<longleftrightarrow> (\<forall>it \<in> set items. fst (native (snd it)) \<noteq> 0 \<and> snd (native (snd it)) \<noteq> 0)"

text \<open>The paths of the pictures of a slide, in the order they were added.\<close>

definition picture_paths :: "shape list \<Rightarrow> ustring list" where
  "picture_paths shapes = map shape_path (filter is_Picture shapes)"

text \<open>
  \<open>pages\<close> are \<open>xs\<close> cut into pages of \<open>k\<close>: in order, none empty, none longer than \<open>k\<close>, and
  all but the last full.
\<close>

definition paginated_as :: "nat \<Rightarrow> 'a list \<Rightarrow> 'a list list \<Rightarrow> bool" where
  "paginated_as k xs pages \<longleftrightarrow>
     concat pages = xs \<and> (\<forall>p \<in> set pages. p \<noteq> [] \<and> length p \<le> k)
     \<and> (\<forall>p \<in> set (butlast pages). length p = k)"

text \<open>Concrete inputs for the examples.\<close>

definition native0 :: images where
  "native0 p = (5072605, 3000000)"

definition deck0 :: presentation where
  "deck0 = \<lparr>slide_width = 5943600, slide_height = 10689336, slides = []\<rparr>"



text \<open>A length in EMU that a float holds exactly, with room for one rounding.\<close>

definition emu :: "int \<Rightarrow> bool" where
  "emu k \<longleftrightarrow> 0 \<le> k \<and> k < 2 ^ 51"

section \<open>Rounding lemmas\<close>

lemma round_half_even_bounds:
  "of_int (round_half_even m) \<le> m + 1/2" "m - 1/2 \<le> of_int (round_half_even m)"
  unfolding round_half_even_def Let_def by (auto, linarith+)

lemma round_half_even_of_int [simp]: "round_half_even (of_int k) = k"
  by (simp add: round_half_even_def)

lemma round_half_even_mono: "m \<le> m' \<Longrightarrow> round_half_even m \<le> round_half_even m'"
proof -
  assume le: "m \<le> m'"
  have fl: "\<lfloor>m\<rfloor> \<le> \<lfloor>m'\<rfloor>" using le by (rule floor_mono)
  have r1: "round_half_even m \<le> \<lfloor>m\<rfloor> + 1"
    by (simp add: round_half_even_def Let_def)
  have r2: "\<lfloor>m'\<rfloor> \<le> round_half_even m'"
    by (simp add: round_half_even_def Let_def)
  show ?thesis
  proof (cases "\<lfloor>m\<rfloor> = \<lfloor>m'\<rfloor>")
    case False
    with fl r1 r2 show ?thesis by linarith
  next
    case True
    with le show ?thesis
      by (auto simp: round_half_even_def Let_def)
  qed
qed

lemma float_exponent_bounds:
  assumes "x \<noteq> 0"
  shows "2 powi (float_exponent x + 52) \<le> \<bar>x\<bar>" "\<bar>x\<bar> < 2 powi (float_exponent x + 53)"
proof -
  obtain p q where pq: "quotient_of \<bar>x\<bar> = (p, q)" by (cases "quotient_of \<bar>x\<bar>")
  then have q: "0 < q" and x: "\<bar>x\<bar> = of_int p / of_int q"
    by (auto dest: quotient_of_denom_pos quotient_of_div)
  from assms have "0 < \<bar>x\<bar>" by simp
  with x q have p: "0 < p" by (simp add: zero_less_divide_iff)
  define k where "k = bitlen p - bitlen q"
  have bp: "2 ^ nat (bitlen p - 1) \<le> p" "p < 2 ^ nat (bitlen p)"
    using bitlen_bounds [OF p] by auto
  have bq: "2 ^ nat (bitlen q - 1) \<le> q" "q < 2 ^ nat (bitlen q)"
    using bitlen_bounds [OF q] by auto
  have bp1: "1 \<le> bitlen p" and bq1: "1 \<le> bitlen q"
    using p q bitlen_eq_zero_iff [of p] bitlen_eq_zero_iff [of q] bitlen_nonneg [of p] bitlen_nonneg [of q]
    by linarith+
  have P: "(2::rat) powi (bitlen p - 1) \<le> of_int p" "of_int p < (2::rat) powi bitlen p"
  proof -
    have "(of_int (2 ^ nat (bitlen p - 1)) :: rat) \<le> of_int p" using bp(1) by (simp only: of_int_le_iff)
    then show "(2::rat) powi (bitlen p - 1) \<le> of_int p" using bp1 by (simp add: power_int_def)
    have "(of_int p :: rat) < of_int (2 ^ nat (bitlen p))" using bp(2) by (simp only: of_int_less_iff)
    then show "of_int p < (2::rat) powi bitlen p" using bp1 by (simp add: power_int_def)
  qed
  have Q: "(2::rat) powi (bitlen q - 1) \<le> of_int q" "of_int q < (2::rat) powi bitlen q"
  proof -
    have "(of_int (2 ^ nat (bitlen q - 1)) :: rat) \<le> of_int q" using bq(1) by (simp only: of_int_le_iff)
    then show "(2::rat) powi (bitlen q - 1) \<le> of_int q" using bq1 by (simp add: power_int_def)
    have "(of_int q :: rat) < of_int (2 ^ nat (bitlen q))" using bq(2) by (simp only: of_int_less_iff)
    then show "of_int q < (2::rat) powi bitlen q" using bq1 by (simp add: power_int_def)
  qed
  have qpos: "(0::rat) < of_int q" using q by simp
  have up: "\<bar>x\<bar> < 2 powi (k + 1)"
  proof -
    have "of_int p < (2::rat) powi (k + 1) * 2 powi (bitlen q - 1)"
      using P(2) by (simp add: k_def power_int_add [symmetric])
    also have "\<dots> \<le> 2 powi (k + 1) * of_int q"
      using Q(1) by (intro mult_left_mono) simp_all
    finally show ?thesis using qpos by (simp add: x pos_divide_less_eq)
  qed
  have lo: "2 powi (k - 1) \<le> \<bar>x\<bar>"
  proof -
    have "(2::rat) powi (k - 1) * of_int q \<le> 2 powi (k - 1) * 2 powi bitlen q"
      using Q(2) by (intro mult_left_mono) simp_all
    also have "\<dots> = 2 powi (bitlen p - 1)"
      by (simp add: k_def power_int_add [symmetric])
    also have "\<dots> \<le> of_int p" by (rule P(1))
    finally show ?thesis using qpos by (simp add: x pos_le_divide_eq)
  qed
  have e: "float_exponent x = (if 2 powi k \<le> \<bar>x\<bar> then k else k - 1) - 52"
    by (simp add: float_exponent_def pq k_def Let_def)
  show "2 powi (float_exponent x + 52) \<le> \<bar>x\<bar>" using lo by (simp add: e)
  show "\<bar>x\<bar> < 2 powi (float_exponent x + 53)"
    using up by (auto simp: e not_le add.commute)
qed


lemma pow2_less_iff: "(2::rat) powi a < 2 powi b \<longleftrightarrow> a < b"
proof
  assume "(2::rat) powi a < 2 powi b"
  show "a < b"
  proof (rule ccontr)
    assume "\<not> a < b"
    then have "(2::rat) powi b \<le> 2 powi a" by (intro power_int_increasing) simp_all
    with \<open>(2::rat) powi a < 2 powi b\<close> show False by simp
  qed
next
  assume "a < b"
  then show "(2::rat) powi a < 2 powi b" by (intro power_int_strict_increasing) simp_all
qed

lemma pow2_le_iff: "(2::rat) powi a \<le> 2 powi b \<longleftrightarrow> a \<le> b"
  using pow2_less_iff [of b a] by (simp add: not_less [symmetric])

lemma float_exponent_unique:
  assumes lo: "2 powi (e + 52) \<le> \<bar>x\<bar>" and hi: "\<bar>x\<bar> < 2 powi (e + 53)"
  shows "float_exponent x = e"
proof -
  have "(0::rat) < 2 powi (e + 52)" by simp
  from this lo have "0 < \<bar>x\<bar>" by (rule less_le_trans)
  then have "x \<noteq> 0" by simp
  note b = float_exponent_bounds [OF this]
  have "(2::rat) powi (e + 52) < 2 powi (float_exponent x + 53)"
    using lo b(2) by (rule le_less_trans)
  then have 1: "e + 52 < float_exponent x + 53"
    by (simp only: pow2_less_iff)
  have "(2::rat) powi (float_exponent x + 52) < 2 powi (e + 53)"
    using b(1) hi by (rule le_less_trans)
  then have 2: "float_exponent x + 52 < e + 53"
    by (simp only: pow2_less_iff)
  from 1 2 show ?thesis by linarith
qed


lemma fl_zero [simp]: "fl 0 = 0"
  by (simp add: fl_def)

lemma fl_minus: "fl (- x) = - fl x"
  by (simp add: fl_def float_exponent_def Let_def)

lemma fl_pos_eq:
  "0 < x \<Longrightarrow> fl x = of_int (round_half_even (x / 2 powi float_exponent x)) * 2 powi float_exponent x"
  by (simp add: fl_def Let_def)

text \<open>The significand of a positive number lies in \<open>[2^52, 2^53)\<close>.\<close>

lemma significand_bounds:
  assumes "0 < x"
  shows "2 ^ 52 \<le> x / 2 powi float_exponent x" "x / 2 powi float_exponent x < 2 ^ 53"
proof -
  from assms have nz: "x \<noteq> 0" and ax: "\<bar>x\<bar> = x" by auto
  note b = float_exponent_bounds [OF nz, unfolded ax]
  have pos: "(0::rat) < 2 powi float_exponent x" by simp
  have "(2::rat) ^ 52 * 2 powi float_exponent x = 2 powi (float_exponent x + 52)"
    by (simp add: power_int_add)
  with b(1) show "2 ^ 52 \<le> x / 2 powi float_exponent x"
    using pos by (simp add: pos_le_divide_eq)
  have "(2::rat) ^ 53 * 2 powi float_exponent x = 2 powi (float_exponent x + 53)"
    by (simp add: power_int_add)
  with b(2) show "x / 2 powi float_exponent x < 2 ^ 53"
    using pos by (simp add: pos_divide_less_eq)
qed

lemma fl_pos_bounds:
  assumes "0 < x"
  shows "2 powi (float_exponent x + 52) \<le> fl x" "fl x \<le> 2 powi (float_exponent x + 53)"
proof -
  let ?e = "float_exponent x" and ?m = "x / 2 powi float_exponent x"
  have pos: "(0::rat) < 2 powi ?e" by simp
  have "round_half_even (of_int (2 ^ 52)) \<le> round_half_even ?m"
    using significand_bounds(1) [OF assms] by (intro round_half_even_mono) simp
  then have "(2::int) ^ 52 \<le> round_half_even ?m"
    by (simp only: round_half_even_of_int)
  then have "(of_int (2 ^ 52) :: rat) \<le> of_int (round_half_even ?m)"
    by (simp only: of_int_le_iff)
  then have "(2::rat) ^ 52 * 2 powi ?e \<le> of_int (round_half_even ?m) * 2 powi ?e"
    using pos by (intro mult_right_mono) simp_all
  then show "2 powi (?e + 52) \<le> fl x"
    by (simp add: fl_pos_eq [OF assms] power_int_add)
  have "round_half_even ?m \<le> round_half_even (of_int (2 ^ 53))"
    using significand_bounds(2) [OF assms] by (intro round_half_even_mono) simp
  then have "round_half_even ?m \<le> (2::int) ^ 53"
    by (simp only: round_half_even_of_int)
  then have "(of_int (round_half_even ?m) :: rat) \<le> of_int (2 ^ 53)"
    by (simp only: of_int_le_iff)
  then have "of_int (round_half_even ?m) * 2 powi ?e \<le> (2::rat) ^ 53 * 2 powi ?e"
    using pos by (intro mult_right_mono) simp_all
  then show "fl x \<le> 2 powi (?e + 53)"
    by (simp add: fl_pos_eq [OF assms] power_int_add)
qed

lemma fl_pos: "0 < x \<Longrightarrow> 0 < fl x"
  using fl_pos_bounds(1) [of x] zero_less_power_int [of "2::rat" "float_exponent x + 52"]
  by linarith

lemma fl_nonneg: "0 \<le> x \<Longrightarrow> 0 \<le> fl x"
  using fl_pos [of x] by (cases "x = 0") auto




text \<open>Relative error of one rounding: at most \<open>2^-53\<close>.\<close>

lemma fl_error_pos:
  assumes "0 < x"
  shows "\<bar>fl x - x\<bar> \<le> x / 2 ^ 53"
proof -
  let ?e = "float_exponent x" and ?m = "x / 2 powi float_exponent x"
  have pos: "(0::rat) < 2 powi ?e" by simp
  have x: "x = ?m * 2 powi ?e" by simp
  have "\<bar>of_int (round_half_even ?m) - ?m\<bar> \<le> 1 / 2"
    using round_half_even_bounds [of ?m] by arith
  also have "\<dots> \<le> ?m / 2 ^ 53"
    using significand_bounds(1) [OF assms] by (simp add: le_divide_eq)
  finally have "\<bar>of_int (round_half_even ?m) - ?m\<bar> * 2 powi ?e \<le> ?m / 2 ^ 53 * 2 powi ?e"
    using pos by (intro mult_right_mono) simp_all
  moreover have "\<bar>fl x - x\<bar> = \<bar>of_int (round_half_even ?m) - ?m\<bar> * 2 powi ?e"
  proof -
    have "fl x - x = (of_int (round_half_even ?m) - ?m) * 2 powi ?e"
      by (simp add: fl_pos_eq [OF assms] algebra_simps)
    then show ?thesis by (simp add: abs_mult)
  qed
  ultimately show ?thesis by simp
qed

lemma fl_error: "\<bar>fl x - x\<bar> \<le> \<bar>x\<bar> / 2 ^ 53"
proof -
  consider "0 < x" | "x = 0" | "x < 0" by linarith
  then show ?thesis
  proof cases
    case 1 then show ?thesis using fl_error_pos [of x] by simp
  next
    case 2 then show ?thesis by simp
  next
    case 3
    then have "\<bar>fl (- x) - (- x)\<bar> \<le> (- x) / 2 ^ 53" by (intro fl_error_pos) simp
    moreover have "\<bar>fl (- x) - (- x)\<bar> = \<bar>fl x - x\<bar>" by (simp add: fl_minus)
    ultimately show ?thesis using 3 by simp
  qed
qed

text \<open>Integers of at most 53 bits are floats.\<close>

lemma fl_of_int:
  assumes "\<bar>k\<bar> \<le> 2 ^ 53"
  shows "fl (of_int k) = of_int k"
proof -
  have pos: "fl (of_int k) = of_int k" if k: "0 < k" "k \<le> 2 ^ 53" for k :: int
  proof -
    let ?x = "of_int k :: rat"
    have x: "0 < ?x" using k by simp
    let ?e = "float_exponent ?x"
    have "?x \<le> of_int (2 ^ 53)" using k(2) by (simp only: of_int_le_iff)
    then have "?x \<le> 2 powi 53" by simp
    with float_exponent_bounds(1) [of ?x] x have "(2::rat) powi (?e + 52) \<le> 2 powi 53"
      by simp
    then have "?e + 52 \<le> 53" by (simp only: pow2_le_iff)
    then have e: "?e \<le> 1" by simp
    show ?thesis
    proof (cases "?e \<le> 0")
      case True
      have "2 powi ?e = 1 / (2::rat) ^ nat (- ?e)"
        using True by (auto simp: power_int_def field_simps)
      then have "?x / 2 powi ?e = of_int (k * 2 ^ nat (- ?e))" by simp
      then have "round_half_even (?x / 2 powi ?e) = k * 2 ^ nat (- ?e)"
        by (simp only: round_half_even_of_int)
      then show ?thesis
        using \<open>2 powi ?e = 1 / (2::rat) ^ nat (- ?e)\<close> by (simp add: fl_pos_eq [OF x])
    next
      case False
      with e have e1: "?e = 1" by linarith
      have "(2::rat) powi 53 \<le> ?x" using float_exponent_bounds(1) [of ?x] x by (simp add: e1)
      with \<open>?x \<le> 2 powi 53\<close> have x53: "?x = 2 ^ 53" by simp
      have "?x / 2 powi ?e = ?x / 2" by (simp only: e1 power_int_1_right)
      also have "\<dots> = 2 ^ 53 / 2" by (simp only: x53)
      also have "\<dots> = of_int (2 ^ 52)" by simp
      finally have "?x / 2 powi ?e = of_int (2 ^ 52)" .
      then have "round_half_even (?x / 2 powi ?e) = 2 ^ 52"
        by (simp only: round_half_even_of_int)
      then have "fl ?x = of_int (2 ^ 52) * 2 powi 1"
        by (simp only: fl_pos_eq [OF x] e1)
      also have "\<dots> = 2 ^ 53" by simp
      finally show ?thesis by (simp only: x53)
    qed
  qed
  consider "0 < k" | "k = 0" | "k < 0" by linarith
  then show ?thesis
  proof cases
    case 1 with assms show ?thesis by (intro pos) auto
  next
    case 2 then show ?thesis by simp
  next
    case 3
    with assms have "fl (of_int (- k)) = of_int (- k)" by (intro pos) auto
    then show ?thesis by (simp add: fl_minus)
  qed
qed

lemma fl_upper:
  assumes "0 \<le> x"
  shows "fl x \<le> x * (1 + 1 / 2 ^ 53)"
proof -
  have "\<bar>fl x - x\<bar> \<le> x / 2 ^ 53" using fl_error [of x] assms by simp
  then have "fl x - x \<le> x / 2 ^ 53" by (simp only: abs_le_iff)
  then have "fl x \<le> x + x / 2 ^ 53" by linarith
  also have "\<dots> = x * (1 + 1 / 2 ^ 53)" by (simp add: algebra_simps)
  finally show ?thesis .
qed

lemma fl_lower:
  assumes "0 \<le> x"
  shows "x * (1 - 1 / 2 ^ 53) \<le> fl x"
proof -
  have "\<bar>fl x - x\<bar> \<le> x / 2 ^ 53" using fl_error [of x] assms by simp
  then have "- (fl x - x) \<le> x / 2 ^ 53" by (simp only: abs_le_iff)
  then have "x - x / 2 ^ 53 \<le> fl x" by linarith
  moreover have "x - x / 2 ^ 53 = x * (1 - 1 / 2 ^ 53)" by (simp add: algebra_simps)
  ultimately show ?thesis by simp
qed

lemma py_int_nonneg: "0 \<le> x \<Longrightarrow> py_int x = \<lfloor>x\<rfloor>"
  by (simp add: py_int_def)

lemma float_of_int_exact: "\<bar>k\<bar> \<le> 2 ^ 53 \<Longrightarrow> float_of_int k = of_int k"
  by (simp add: float_of_int_def fl_of_int)

lemma scaled_upper:
  fixes c p :: int and s :: rat
  assumes c: "0 \<le> c" "c < 2 ^ 51" and p: "0 < p" and s: "0 \<le> s" "s \<le> fl (of_int c / of_int p)"
  shows "py_int (fl (of_int p * s)) \<le> c"
proof -
  let ?u = "1 / 2 ^ 53 :: rat"
  let ?c = "of_int c :: rat" and ?p = "of_int p :: rat"
  have cp: "0 \<le> ?c" "0 < ?p" using c p by simp_all
  have c51: "?c < 2 ^ 51"
  proof -
    have "?c < of_int (2 ^ 51)" using c(2) by (simp only: of_int_less_iff)
    then show ?thesis by simp
  qed
  have "fl (?c / ?p) \<le> ?c / ?p * (1 + ?u)" using cp by (intro fl_upper) simp
  with s(2) have "s \<le> ?c / ?p * (1 + ?u)" by (rule order_trans)
  then have "?p * s \<le> ?p * (?c / ?p * (1 + ?u))" using cp by (intro mult_left_mono) simp_all
  also have "\<dots> = ?c * (1 + ?u)" using cp by simp
  finally have ps: "?p * s \<le> ?c * (1 + ?u)" .
  have ps0: "0 \<le> ?p * s" using cp s by simp
  have "fl (?p * s) \<le> ?p * s * (1 + ?u)" using ps0 by (rule fl_upper)
  also have "\<dots> \<le> ?c * (1 + ?u) * (1 + ?u)" using ps by (intro mult_right_mono) simp_all
  also have "\<dots> = ?c + ?c * (2 * ?u + ?u * ?u)" by (simp add: algebra_simps)
  also have "\<dots> < ?c + 1"
  proof -
    have "?c * (2 * ?u + ?u * ?u) \<le> 2 ^ 51 * (2 * ?u + ?u * ?u)"
      using c51 by (intro mult_right_mono) simp_all
    also have "\<dots> < 1" by simp
    finally show ?thesis by simp
  qed
  finally have "fl (?p * s) < of_int (c + 1)" by simp
  then have "\<lfloor>fl (?p * s)\<rfloor> < c + 1" by (simp only: floor_less_iff)
  moreover have "0 \<le> fl (?p * s)" using ps0 by (rule fl_nonneg)
  ultimately show ?thesis by (simp add: py_int_nonneg)
qed

lemma scaled_lower:
  fixes c p :: int and s :: rat
  assumes c: "0 \<le> c" "c < 2 ^ 52" and p: "0 < p" and s: "fl (of_int c / of_int p) \<le> s"
  shows "c - 1 \<le> py_int (fl (of_int p * s))"
proof -
  let ?u = "1 / 2 ^ 53 :: rat"
  let ?c = "of_int c :: rat" and ?p = "of_int p :: rat"
  have cp: "0 \<le> ?c" "0 < ?p" using c p by simp_all
  have c52: "?c < 2 ^ 52"
  proof -
    have "?c < of_int (2 ^ 52)" using c(2) by (simp only: of_int_less_iff)
    then show ?thesis by simp
  qed
  have "?c / ?p * (1 - ?u) \<le> fl (?c / ?p)" using cp by (intro fl_lower) simp
  from this s have "?c / ?p * (1 - ?u) \<le> s" by (rule order_trans)
  then have "?p * (?c / ?p * (1 - ?u)) \<le> ?p * s" using cp by (intro mult_left_mono) simp_all
  moreover have "?p * (?c / ?p * (1 - ?u)) = ?c * (1 - ?u)" using cp by simp
  ultimately have ps: "?c * (1 - ?u) \<le> ?p * s" by simp
  have "0 \<le> ?c * (1 - ?u)" using cp by simp
  with ps have ps0: "0 \<le> ?p * s" by simp
  have "?c - 1 \<le> ?c * (1 - ?u) * (1 - ?u)"
  proof -
    have "?c * (2 * ?u - ?u * ?u) \<le> 2 ^ 52 * (2 * ?u - ?u * ?u)"
      using c52 by (intro mult_right_mono) simp_all
    also have "\<dots> \<le> 1" by simp
    finally have "?c * (2 * ?u - ?u * ?u) \<le> 1" .
    moreover have "?c * (1 - ?u) * (1 - ?u) = ?c - ?c * (2 * ?u - ?u * ?u)" by (simp add: algebra_simps)
    ultimately show ?thesis by simp
  qed
  also have "\<dots> \<le> ?p * s * (1 - ?u)" using ps by (intro mult_right_mono) simp_all
  also have "\<dots> \<le> fl (?p * s)" using ps0 by (rule fl_lower)
  finally have "of_int (c - 1) \<le> fl (?p * s)" by simp
  then have "c - 1 \<le> \<lfloor>fl (?p * s)\<rfloor>" by (simp only: le_floor_iff)
  moreover have "0 \<le> fl (?p * s)" using ps0 by (rule fl_nonneg)
  ultimately show ?thesis by (simp add: py_int_nonneg)
qed

section \<open>Fit policies\<close>

text \<open>
  Claim C2, as amended. A picture of positive native size in a cell of non-negative size,
  all four lengths below \<open>2^51\<close> EMU: under contain neither side of the placement exceeds
  the cell; under cover each side is at least the cell's side minus one EMU (the product
  \<open>pic.width * scale\<close> is rounded and then truncated by \<open>int\<close>, which can lose one unit).
\<close>

theorem fit_policies_bounds:
  assumes "emu pw" "emu ph" "0 < pw" "0 < ph" "emu cw" "emu ch"
  shows "(\<exists>w h. contain_fit cw ch pw ph = Inr (w, h) \<and> w \<le> cw \<and> h \<le> ch)
       \<and> (\<exists>w h. cover_fit cw ch pw ph = Inr (w, h) \<and> cw - 1 \<le> w \<and> ch - 1 \<le> h)"
proof -
  have ex: "float_of_int pw = of_int pw" "float_of_int ph = of_int ph"
    "float_of_int cw = of_int cw" "float_of_int ch = of_int ch"
    using assms by (auto simp: emu_def intro!: float_of_int_exact)
  let ?sw = "fl (of_int cw / of_int pw)" and ?sh = "fl (of_int ch / of_int ph)"
  have nn: "0 \<le> ?sw" "0 \<le> ?sh" using assms by (auto simp: emu_def intro!: fl_nonneg)
  have c: "0 \<le> cw" "cw < 2 ^ 51" "cw < 2 ^ 52" "0 \<le> ch" "ch < 2 ^ 51" "ch < 2 ^ 52"
    using assms by (auto simp: emu_def)
  have "py_int (fl (of_int pw * min ?sw ?sh)) \<le> cw"
    using c(1,2) assms(3) nn by (intro scaled_upper) auto
  moreover have "py_int (fl (of_int ph * min ?sw ?sh)) \<le> ch"
    using c(4,5) assms(4) nn by (intro scaled_upper) auto
  ultimately have 1: "\<exists>w h. contain_fit cw ch pw ph = Inr (w, h) \<and> w \<le> cw \<and> h \<le> ch"
    using assms(3,4) by (simp add: contain_fit_def ex fdiv_def fmul_def Let_def)
  have "cw - 1 \<le> py_int (fl (of_int pw * max ?sw ?sh))"
    using c(1,3) assms(3) by (intro scaled_lower) auto
  moreover have "ch - 1 \<le> py_int (fl (of_int ph * max ?sw ?sh))"
    using c(4,6) assms(4) by (intro scaled_lower) auto
  ultimately have 2: "\<exists>w h. cover_fit cw ch pw ph = Inr (w, h) \<and> cw - 1 \<le> w \<and> ch - 1 \<le> h"
    using assms(3,4) by (simp add: cover_fit_def ex fdiv_def fmul_def Let_def)
  from 1 2 show ?thesis ..
qed

theorem fit_policies_bounds_witness:
  "emu 5072605 \<and> emu 3000000 \<and> (0::int) < 5072605 \<and> (0::int) < 3000000 \<and> emu 731520 \<and> emu 545592
   \<and> (\<exists>w h. contain_fit 731520 545592 5072605 3000000 = Inr (w, h) \<and> w \<le> 731520 \<and> h \<le> 545592)
   \<and> (\<exists>w h. cover_fit 731520 545592 5072605 3000000 = Inr (w, h) \<and> 731520 - 1 \<le> w \<and> 545592 - 1 \<le> h)"
proof -
  have h: "emu 5072605" "emu 3000000" "(0::int) < 5072605" "(0::int) < 3000000" "emu 731520" "emu 545592"
    by (simp_all add: emu_def)
  from fit_policies_bounds [OF h] h show ?thesis by simp
qed

text \<open>
  Claim C2 as stated fails for cover: a picture 5072605 EMU wide in a cell 489873 EMU wide
  is placed 489872 EMU wide.
\<close>

theorem cover_fit_counterexample:
  "(0::int) < 5072605 \<and> (0::int) < 3000000
   \<and> cover_fit 489873 250000 5072605 3000000 = Inr (489872, 289716) \<and> (489872::int) < 489873"
  by code_simp

section \<open>Single-slide grids\<close>

lemma py_slice_prefix: "0 \<le> k \<Longrightarrow> py_slice xs 0 k = take (nat k) xs"
  by (simp add: py_slice_def slice_index_def Let_def min_def)


lemma contain_fit_ok:
  "pw \<noteq> 0 \<Longrightarrow> ph \<noteq> 0 \<Longrightarrow> \<exists>w h. contain_fit cw ch pw ph = Inr (w, h)"
  by (simp add: contain_fit_def Let_def)


lemma fill_cell_ok:
  assumes "fst (native (snd it)) \<noteq> 0" "snd (native (snd it)) \<noteq> 0"
  shows "\<exists>shs. fill_cell native g cols rows fill_order i it = Inr shs \<and> picture_paths shs = [snd it]"
proof -
  obtain pw ph where n: "native (snd it) = (pw, ph)" by (cases "native (snd it)")
  with assms have "pw \<noteq> 0" "ph \<noteq> 0" by simp_all
  then obtain w h where "contain_fit (g_cell_w g) (g_cell_h g) pw ph = Inr (w, h)"
    using contain_fit_ok by blast
  then show ?thesis
    by (simp add: fill_cell_def n Let_def picture_paths_def split: prod.splits)
qed


lemma picture_paths_append: "picture_paths (a @ b) = picture_paths a @ picture_paths b"
  by (simp add: picture_paths_def)

lemma enumerate_cells_ok:
  assumes "\<And>i it. it \<in> set xs \<Longrightarrow> \<exists>shs. body i it = Inr shs \<and> picture_paths shs = [snd it]"
  shows "\<exists>shapes. enumerate_cells body i xs = Inr shapes \<and> picture_paths shapes = map snd xs"
  using assms
proof (induction xs arbitrary: i)
  case Nil
  then show ?case by (simp add: picture_paths_def)
next
  case (Cons it xs)
  from Cons.prems [of it i] obtain shs where 1: "body i it = Inr shs" "picture_paths shs = [snd it]"
    by auto
  have "\<exists>shapes. enumerate_cells body (i + 1) xs = Inr shapes \<and> picture_paths shapes = map snd xs"
    by (rule Cons.IH) (simp add: Cons.prems)
  then obtain rest where 2: "enumerate_cells body (i + 1) xs = Inr rest" "picture_paths rest = map snd xs"
    by auto
  from 1 2 show ?case by (simp add: picture_paths_append)
qed

lemma add_fill_grid_slide_no_captions_ok:
  assumes "cols \<noteq> 0" "rows \<noteq> 0" "native_ok native (py_slice items 0 (cols * rows))"
  shows "\<exists>shapes. add_fill_grid_slide_no_captions native prs items cols rows margin_in hspace_in
            vspace_in fill_order = Inr (prs\<lparr>slides := slides prs @ [shapes]\<rparr>)
          \<and> picture_paths shapes = map snd (py_slice items 0 (cols * rows))"
proof -
  let ?xs = "py_slice items 0 (cols * rows)"
  have ok: "\<And>it. it \<in> set ?xs \<Longrightarrow> fst (native (snd it)) \<noteq> 0 \<and> snd (native (snd it)) \<noteq> 0"
    using assms(3) by (auto simp: native_ok_def)
  have "\<exists>shapes. enumerate_cells (fill_cell native g cols rows fill_order) 0 ?xs = Inr shapes
          \<and> picture_paths shapes = map snd ?xs" for g
    by (rule enumerate_cells_ok) (use ok in \<open>auto intro: fill_cell_ok\<close>)
  then show ?thesis
    using assms(1,2) unfolding add_fill_grid_slide_no_captions_def Let_def
    by (simp split: sum.splits) (metis sum.inject(2) sum.distinct(1))
qed








section \<open>Pagination\<close>

lemma picture_paths_Nil: "picture_paths [] = []"
  by (simp add: picture_paths_def)

lemma paginated_as_Nil: "paginated_as k xs [] \<longleftrightarrow> xs = []"
  by (auto simp: paginated_as_def)

lemma paginated_as_empty: "paginated_as k [] pages \<longleftrightarrow> pages = []"
  by (cases pages) (auto simp: paginated_as_def)

lemma ceiling_step:
  fixes k :: nat
  assumes "0 < k"
  shows "\<lceil>(of_nat (k + n) :: rat) / of_nat k\<rceil> = 1 + \<lceil>(of_nat n :: rat) / of_nat k\<rceil>"
proof -
  have "(of_nat (k + n) :: rat) / of_nat k = 1 + of_nat n / of_nat k"
    using assms by (simp add: field_simps)
  then show ?thesis by (simp add: add.commute [of 1] ceiling_add_one)
qed

lemma ceiling_one_page:
  fixes k n :: nat
  assumes "0 < n" "n \<le> k"
  shows "\<lceil>(of_nat n :: rat) / of_nat k\<rceil> = 1"
proof -
  have k: "(0::rat) < of_nat k" using assms by simp
  have "(0::rat) < of_nat n / of_nat k" using assms k by simp
  moreover have "(of_nat n :: rat) / of_nat k \<le> 1" using assms k by (simp add: divide_le_eq)
  ultimately show ?thesis by (simp add: ceiling_eq_iff)
qed

lemma paginated_as_pages:
  assumes "0 < k" "paginated_as k xs pages"
  shows "int (length pages) = \<lceil>(of_nat (length xs) :: rat) / of_nat k\<rceil>
       \<and> (\<forall>j < length pages. pages ! j = take k (drop (j * k) xs))"
  using assms(2)
proof (induction pages arbitrary: xs)
  case Nil
  then show ?case by (simp add: paginated_as_Nil)
next
  case (Cons p pages)
  show ?case
  proof (cases "pages = []")
    case True
    with Cons.prems have p: "xs = p" "p \<noteq> []" "length p \<le> k"
      by (auto simp: paginated_as_def)
    then have "\<lceil>(of_nat (length xs) :: rat) / of_nat k\<rceil> = 1"
      by (intro ceiling_one_page) auto
    with True p show ?thesis by simp
  next
    case False
    with Cons.prems have p: "length p = k" and xs: "xs = p @ concat pages"
      and rest: "paginated_as k (concat pages) pages"
      by (auto simp: paginated_as_def)
    note IH = Cons.IH [OF rest]
    have len: "length xs = k + length (concat pages)" using p xs by simp
    have "int (length (p # pages)) = 1 + \<lceil>(of_nat (length (concat pages)) :: rat) / of_nat k\<rceil>"
      using IH by simp
    also have "\<dots> = \<lceil>(of_nat (length xs) :: rat) / of_nat k\<rceil>"
      unfolding len using ceiling_step [OF assms(1)] by simp
    finally have 1: "int (length (p # pages)) = \<lceil>(of_nat (length xs) :: rat) / of_nat k\<rceil>" .
    have 2: "(p # pages) ! j = take k (drop (j * k) xs)" if "j < length (p # pages)" for j
    proof (cases j)
      case 0
      then show ?thesis using p xs by simp
    next
      case (Suc i)
      with that have "i < length pages" by simp
      with IH have "pages ! i = take k (drop (i * k) (concat pages))" by simp
      moreover have "drop (Suc i * k) xs = drop (i * k) (concat pages)"
        using p xs by (simp add: add.commute)
      ultimately show ?thesis using Suc by simp
    qed
    from 1 2 show ?thesis by blast
  qed
qed

subsection \<open>The paginating wrapper\<close>

lemma py_slice_window:
  assumes "0 \<le> i" "0 < k"
  shows "py_slice xs i (i + k) = take (nat k) (drop (nat i) xs)"
proof (cases "nat i < length xs")
  case True
  with assms have "slice_index (length xs) i = nat i" by (simp add: slice_index_def)
  moreover have "slice_index (length xs) (i + k) - nat i = min (nat k) (length xs - nat i)"
    using assms True by (auto simp: slice_index_def min_def nat_add_distrib)
  ultimately show ?thesis by (simp add: py_slice_def Let_def min_def)
next
  case False
  with assms have "slice_index (length xs) i = length xs" by (simp add: slice_index_def)
  with False show ?thesis by (simp add: py_slice_def Let_def)
qed

lemma paginate_loop_pages:
  fixes add_slide :: "presentation \<Rightarrow> item list \<Rightarrow> py_error + presentation"
  assumes k: "0 < k"
    and add: "\<And>p chunk. set chunk \<subseteq> set items \<Longrightarrow> length chunk \<le> nat k \<Longrightarrow>
        \<exists>shapes. add_slide p chunk = Inr (p\<lparr>slides := slides p @ [shapes]\<rparr>)
          \<and> picture_paths shapes = map snd chunk"
    and i: "0 \<le> i"
  shows "\<exists>new. paginate_loop add_slide items k prs (py_range i (int (length items)) k)
            = Inr (prs\<lparr>slides := slides prs @ new\<rparr>)
          \<and> paginated_as (nat k) (drop (nat i) (map snd items)) (map picture_paths new)"
  using i
proof (induction "nat (int (length items) - i)" arbitrary: i prs rule: less_induct)
  case less
  note prems = less.prems
  show ?case
  proof (cases "i < int (length items)")
    case False
    then have "py_range i (int (length items)) k = []"
      using k by (subst py_range.simps) simp
    moreover from False prems have "drop (nat i) (map snd items) = []" by simp
    ultimately have "paginate_loop add_slide items k prs (py_range i (int (length items)) k)
          = Inr (prs\<lparr>slides := slides prs @ []\<rparr>)
        \<and> paginated_as (nat k) (drop (nat i) (map snd items)) (map picture_paths [])"
      by (simp add: paginated_as_Nil)
    then show ?thesis by blast
  next
    case True
    let ?chunk = "py_slice items i (i + k)"
    have r: "py_range i (int (length items)) k = i # py_range (i + k) (int (length items)) k"
      using True k by (subst py_range.simps) simp
    have chunk: "?chunk = take (nat k) (drop (nat i) items)"
      using prems k by (rule py_slice_window)
    have sub: "set ?chunk \<subseteq> set items"
      unfolding chunk by (meson set_take_subset set_drop_subset subset_trans)
    have "length ?chunk \<le> nat k" unfolding chunk by simp
    from add [OF sub this, of prs] obtain shapes where
      s: "add_slide prs ?chunk = Inr (prs\<lparr>slides := slides prs @ [shapes]\<rparr>)"
         "picture_paths shapes = map snd ?chunk"
      by blast
    let ?prs = "prs\<lparr>slides := slides prs @ [shapes]\<rparr>"
    have "0 \<le> i + k" using prems k by simp
    moreover have "nat (int (length items) - (i + k)) < nat (int (length items) - i)"
      using True k by simp
    ultimately obtain new where
      n: "paginate_loop add_slide items k ?prs (py_range (i + k) (int (length items)) k)
            = Inr (?prs\<lparr>slides := slides ?prs @ new\<rparr>)"
         "paginated_as (nat k) (drop (nat (i + k)) (map snd items)) (map picture_paths new)"
      using less.hyps [of "i + k" ?prs] by blast
    have res: "paginate_loop add_slide items k prs (py_range i (int (length items)) k)
        = Inr (prs\<lparr>slides := slides prs @ (shapes # new)\<rparr>)"
      by (simp add: r s(1) n(1))
    let ?xs = "map snd items"
    have ne: "map snd ?chunk \<noteq> []" using True prems k unfolding chunk by simp
    have dd: "drop (nat (i + k)) ?xs = drop (nat k) (drop (nat i) ?xs)"
      using prems k by (simp add: nat_add_distrib add.commute)
    have cc: "map snd ?chunk = take (nat k) (drop (nat i) ?xs)"
      unfolding chunk by (simp add: take_map drop_map)
    have full: "length (map snd ?chunk) = nat k" if "new \<noteq> []"
    proof -
      from that n(2) have "drop (nat (i + k)) ?xs \<noteq> []"
        by (auto simp: paginated_as_Nil paginated_as_empty)
      then have "nat i + nat k < length ?xs" unfolding dd by simp
      then show ?thesis unfolding cc by simp
    qed
    let ?ys = "drop (nat i) ?xs"
    have pg: "concat (map picture_paths new) = drop (nat k) ?ys"
      "\<forall>p \<in> set (map picture_paths new). p \<noteq> [] \<and> length p \<le> nat k"
      "\<forall>p \<in> set (butlast (map picture_paths new)). length p = nat k"
      using n(2) unfolding paginated_as_def dd by blast+
    have hd: "picture_paths shapes = take (nat k) ?ys" by (simp only: s(2) cc)
    have c1: "concat (map picture_paths (shapes # new)) = ?ys"
      by (simp only: list.map concat.simps hd pg(1) append_take_drop_id)
    have c2: "\<forall>p \<in> set (map picture_paths (shapes # new)). p \<noteq> [] \<and> length p \<le> nat k"
      using pg(2) ne by (simp add: hd cc)
    have c3: "\<forall>p \<in> set (butlast (map picture_paths (shapes # new))). length p = nat k"
    proof (cases "new = []")
      case True
      then show ?thesis by simp
    next
      case False
      then show ?thesis using pg(3) full [OF False] by (simp add: s(2))
    qed
    from c1 c2 c3
    have "paginated_as (nat k) (drop (nat i) ?xs) (map picture_paths (shapes # new))"
      unfolding paginated_as_def by blast
    with res show ?thesis by blast
  qed
qed

subsection \<open>The loop of \<open>build_pptx\<close>\<close>

lemma picture_paths_snoc:
  "picture_paths (sl @ [Picture img l t w h]) = picture_paths sl @ [img]"
  by (simp add: picture_paths_def)

lemma cursor_bound:
  fixes r c per_row per_col :: int
  assumes "0 < per_row" "0 \<le> c" "c < per_row" "0 \<le> r" "r < per_col"
  shows "r * per_row + c < per_row * per_col"
proof -
  have "(r + 1) * per_row \<le> per_col * per_row"
    using assms by (intro mult_right_mono) simp_all
  then show ?thesis using assms by (simp add: algebra_simps)
qed

lemma place_imgs_pages:
  assumes "0 < per_row" "0 < per_col"
    and "0 \<le> c" "c < per_row" "0 \<le> r" "r < per_col \<or> (r = per_col \<and> c = 0 \<and> imgs = [])"
    and "int (length (picture_paths slide)) = r * per_row + c"
    and "idx + int (length imgs) = n"
  shows "\<exists>finished' slide' r' c' T.
           place_imgs g per_row per_col n idx (finished, slide, r, c) imgs = (finished', slide', r', c')
         \<and> finished' @ [slide'] = finished @ T \<and> T \<noteq> []
         \<and> concat (map picture_paths T) = picture_paths slide @ imgs
         \<and> (\<forall>p \<in> set (butlast T). int (length (picture_paths p)) = per_row * per_col)
         \<and> int (length (picture_paths (last T))) \<le> per_row * per_col
         \<and> (picture_paths slide \<noteq> [] \<or> imgs \<noteq> [] \<longrightarrow> picture_paths (last T) \<noteq> [])"
  using assms(3-)
proof (induction imgs arbitrary: finished slide r c idx)
  case Nil
  have "r * per_row + c \<le> per_row * per_col"
  proof (cases "r < per_col")
    case True
    with Nil.prems assms(1) show ?thesis using cursor_bound [of per_row c r per_col] by simp
  next
    case False
    with Nil.prems show ?thesis by (simp add: mult.commute)
  qed
  with Nil.prems(5) have "int (length (picture_paths slide)) \<le> per_row * per_col" by simp
  then have "place_imgs g per_row per_col n idx (finished, slide, r, c) [] = (finished, slide, r, c)
      \<and> finished @ [slide] = finished @ [slide] \<and> [slide] \<noteq> []
      \<and> concat (map picture_paths [slide]) = picture_paths slide @ []
      \<and> (\<forall>p \<in> set (butlast [slide]). int (length (picture_paths p)) = per_row * per_col)
      \<and> int (length (picture_paths (last [slide]))) \<le> per_row * per_col
      \<and> (picture_paths slide \<noteq> [] \<or> ([]::ustring list) \<noteq> [] \<longrightarrow> picture_paths (last [slide]) \<noteq> [])"
    by simp
  then show ?case by blast
next
  case (Cons img imgs)
  from Cons.prems have r: "r < per_col" by simp
  define pic where "pic = Picture img
      (Inches (fadd (g_margin_h g) (fmul (float_of_int c) (fadd (g_fit_w g) (g_hspace_in g)))))
      (Inches (fadd (g_margin_v g) (fmul (float_of_int r) (fadd (g_fit_h g) (g_vspace_in g)))))
      (Inches (g_fit_w g)) (Inches (g_fit_h g))"
  define slide1 where "slide1 = slide @ [pic]"
  have pp1: "picture_paths slide1 = picture_paths slide @ [img]"
    by (simp add: slide1_def pic_def picture_paths_snoc)
  have len1: "int (length (picture_paths slide1)) = r * per_row + c + 1"
    using Cons.prems(5) by (simp add: pp1)
  have idx: "idx + 1 + int (length imgs) = n" using Cons.prems(6) by simp
  have step: "place_imgs g per_row per_col n idx (finished, slide, r, c) (img # imgs) =
      (if per_row \<le> c + 1
       then if per_col \<le> r + 1 \<and> idx < n - 1
            then place_imgs g per_row per_col n (idx + 1) (finished @ [slide1], [], 0, 0) imgs
            else place_imgs g per_row per_col n (idx + 1) (finished, slide1, r + 1, 0) imgs
       else place_imgs g per_row per_col n (idx + 1) (finished, slide1, r, c + 1) imgs)"
    by (simp add: Let_def slide1_def pic_def)
  consider (same_row) "c + 1 < per_row"
    | (new_slide) "per_row \<le> c + 1" "per_col \<le> r + 1" "idx < n - 1"
    | (new_row) "per_row \<le> c + 1" "\<not> (per_col \<le> r + 1 \<and> idx < n - 1)"
    by linarith
  then show ?case
  proof cases
    case same_row
    have "\<exists>finished' slide' r' c' T.
           place_imgs g per_row per_col n (idx + 1) (finished, slide1, r, c + 1) imgs
             = (finished', slide', r', c')
         \<and> finished' @ [slide'] = finished @ T \<and> T \<noteq> []
         \<and> concat (map picture_paths T) = picture_paths slide1 @ imgs
         \<and> (\<forall>p \<in> set (butlast T). int (length (picture_paths p)) = per_row * per_col)
         \<and> int (length (picture_paths (last T))) \<le> per_row * per_col
         \<and> (picture_paths slide1 \<noteq> [] \<or> imgs \<noteq> [] \<longrightarrow> picture_paths (last T) \<noteq> [])"
      using Cons.prems same_row r len1 idx by (intro Cons.IH) simp_all
    moreover have "place_imgs g per_row per_col n idx (finished, slide, r, c) (img # imgs)
        = place_imgs g per_row per_col n (idx + 1) (finished, slide1, r, c + 1) imgs"
      using same_row by (simp only: step) simp
    ultimately show ?thesis by (simp add: pp1 del: place_imgs.simps)
  next
    case new_slide
    from new_slide(3) idx have ne: "imgs \<noteq> []" by auto
    from new_slide(1) Cons.prems(2) have c: "c + 1 = per_row" by simp
    from new_slide(2) r have r1: "r + 1 = per_col" by simp
    have "r * per_row + c + 1 = r * per_row + (c + 1)" by simp
    also have "\<dots> = r * per_row + per_row" by (simp only: c)
    also have "\<dots> = (r + 1) * per_row" by (simp add: algebra_simps)
    also have "\<dots> = per_col * per_row" by (simp only: r1)
    finally have full: "int (length (picture_paths slide1)) = per_row * per_col"
      using len1 by (simp add: mult.commute)
    have "\<exists>finished' slide' r' c' T.
           place_imgs g per_row per_col n (idx + 1) (finished @ [slide1], [], 0, 0) imgs
             = (finished', slide', r', c')
         \<and> finished' @ [slide'] = (finished @ [slide1]) @ T \<and> T \<noteq> []
         \<and> concat (map picture_paths T) = picture_paths [] @ imgs
         \<and> (\<forall>p \<in> set (butlast T). int (length (picture_paths p)) = per_row * per_col)
         \<and> int (length (picture_paths (last T))) \<le> per_row * per_col
         \<and> (picture_paths [] \<noteq> [] \<or> imgs \<noteq> [] \<longrightarrow> picture_paths (last T) \<noteq> [])"
      using assms(1,2) idx by (intro Cons.IH) (simp_all add: picture_paths_Nil)
    then obtain finished' slide' r' c' T where T:
      "place_imgs g per_row per_col n (idx + 1) (finished @ [slide1], [], 0, 0) imgs
             = (finished', slide', r', c')"
      "finished' @ [slide'] = (finished @ [slide1]) @ T" "T \<noteq> []"
      "concat (map picture_paths T) = picture_paths [] @ imgs"
      "\<forall>p \<in> set (butlast T). int (length (picture_paths p)) = per_row * per_col"
      "int (length (picture_paths (last T))) \<le> per_row * per_col"
      "picture_paths (last T) \<noteq> []"
      using ne by blast
    have eq: "place_imgs g per_row per_col n idx (finished, slide, r, c) (img # imgs)
        = place_imgs g per_row per_col n (idx + 1) (finished @ [slide1], [], 0, 0) imgs"
      using new_slide by (simp only: step if_True simp_thms)
    have "place_imgs g per_row per_col n idx (finished, slide, r, c) (img # imgs)
             = (finished', slide', r', c')
         \<and> finished' @ [slide'] = finished @ (slide1 # T) \<and> slide1 # T \<noteq> []
         \<and> concat (map picture_paths (slide1 # T)) = picture_paths slide @ img # imgs
         \<and> (\<forall>p \<in> set (butlast (slide1 # T)). int (length (picture_paths p)) = per_row * per_col)
         \<and> int (length (picture_paths (last (slide1 # T)))) \<le> per_row * per_col
         \<and> (picture_paths slide \<noteq> [] \<or> img # imgs \<noteq> [] \<longrightarrow> picture_paths (last (slide1 # T)) \<noteq> [])"
      using T full by (simp add: eq pp1 picture_paths_Nil del: place_imgs.simps)
    then show ?thesis by blast
  next
    case new_row
    from new_row(1) Cons.prems(2) have c: "c + 1 = per_row" by simp
    have len: "int (length (picture_paths slide1)) = (r + 1) * per_row + 0"
      using len1 c by (simp add: algebra_simps)
    have inv: "r + 1 < per_col \<or> (r + 1 = per_col \<and> (0::int) = 0 \<and> imgs = [])"
    proof (cases "per_col \<le> r + 1")
      case True
      with new_row(2) have "\<not> idx < n - 1" by simp
      with idx have "int (length imgs) \<le> 0" by linarith
      then have "imgs = []" by simp
      with True r show ?thesis by simp
    next
      case False
      then show ?thesis by simp
    qed
    have "\<exists>finished' slide' r' c' T.
           place_imgs g per_row per_col n (idx + 1) (finished, slide1, r + 1, 0) imgs
             = (finished', slide', r', c')
         \<and> finished' @ [slide'] = finished @ T \<and> T \<noteq> []
         \<and> concat (map picture_paths T) = picture_paths slide1 @ imgs
         \<and> (\<forall>p \<in> set (butlast T). int (length (picture_paths p)) = per_row * per_col)
         \<and> int (length (picture_paths (last T))) \<le> per_row * per_col
         \<and> (picture_paths slide1 \<noteq> [] \<or> imgs \<noteq> [] \<longrightarrow> picture_paths (last T) \<noteq> [])"
      using assms(1) Cons.prems(3) inv len idx by (intro Cons.IH) simp_all
    moreover have "place_imgs g per_row per_col n idx (finished, slide, r, c) (img # imgs)
        = place_imgs g per_row per_col n (idx + 1) (finished, slide1, r + 1, 0) imgs"
      using new_row by (simp only: step if_True if_False)
    ultimately show ?thesis by (simp add: pp1 del: place_imgs.simps)
  qed
qed

lemma build_pptx_grid_ok:
  "per_row \<noteq> 0 \<Longrightarrow> per_col \<noteq> 0 \<Longrightarrow>
   \<exists>g. build_pptx_grid per_row per_col hspace_fixed vspace_fixed slide_w_in slide_h_in = Inr g"
  by (simp add: build_pptx_grid_def Let_def)

text \<open>
  On a grid of positive \<open>cols\<close> and \<open>rows\<close> the wrapper adds \<open>ceil(n / (cols * rows))\<close>
  slides for \<open>n\<close> items, and slide \<open>j\<close> holds the items \<open>j * cols * rows\<close> onwards, at most
  \<open>cols * rows\<close> of them, in input order.
\<close>

lemma paginated_wrapper_pages:
  assumes "0 < cols" "0 < rows" "native_ok native items"
  shows "\<exists>new. add_fill_grid_slides_no_captions_paginated native prs items cols rows margin_in
            hspace_in vspace_in fill_order = Inr (prs\<lparr>slides := slides prs @ new\<rparr>)
          \<and> int (length new) = \<lceil>(of_nat (length items) :: rat) / of_int (cols * rows)\<rceil>
          \<and> (\<forall>j < length new. picture_paths (new ! j)
                = take (nat (cols * rows)) (drop (j * nat (cols * rows)) (map snd items)))"
proof -
  let ?k = "cols * rows"
  let ?add = "\<lambda>p chunk. add_fill_grid_slide_no_captions native p chunk cols rows margin_in
      hspace_in vspace_in fill_order"
  have k: "0 < ?k" using assms(1,2) by simp
  have nz: "cols \<noteq> 0" "rows \<noteq> 0" using assms(1,2) by simp_all
  have add: "\<exists>shapes. ?add p chunk = Inr (p\<lparr>slides := slides p @ [shapes]\<rparr>)
        \<and> picture_paths shapes = map snd chunk"
    if "set chunk \<subseteq> set items" "length chunk \<le> nat ?k" for p chunk
  proof -
    have sl: "py_slice chunk 0 ?k = chunk"
      using k that(2) by (simp add: py_slice_prefix)
    have "native_ok native chunk" using assms(3) that(1) by (auto simp: native_ok_def)
    then have "native_ok native (py_slice chunk 0 ?k)" by (simp only: sl)
    from add_fill_grid_slide_no_captions_ok [OF nz this] show ?thesis by (simp only: sl)
  qed
  have "\<exists>new. paginate_loop ?add items ?k prs (py_range 0 (int (length items)) ?k)
            = Inr (prs\<lparr>slides := slides prs @ new\<rparr>)
          \<and> paginated_as (nat ?k) (drop (nat 0) (map snd items)) (map picture_paths new)"
    using k add by (intro paginate_loop_pages) auto
  then obtain new where new:
    "paginate_loop ?add items ?k prs (py_range 0 (int (length items)) ?k)
       = Inr (prs\<lparr>slides := slides prs @ new\<rparr>)"
    "paginated_as (nat ?k) (map snd items) (map picture_paths new)"
    by auto
  have res: "add_fill_grid_slides_no_captions_paginated native prs items cols rows margin_in
      hspace_in vspace_in fill_order = Inr (prs\<lparr>slides := slides prs @ new\<rparr>)"
    using k new(1) by (simp add: add_fill_grid_slides_no_captions_paginated_def Let_def nz)
  have nk: "0 < nat ?k" using k by simp
  note pg = paginated_as_pages [OF nk new(2)]
  have ofk: "(of_nat (nat ?k) :: rat) = of_int ?k" using k by simp
  have 1: "int (length new) = \<lceil>(of_nat (length items) :: rat) / of_int ?k\<rceil>"
    using pg by (simp add: ofk)
  have 2: "\<forall>j < length new. picture_paths (new ! j)
      = take (nat ?k) (drop (j * nat ?k) (map snd items))"
    using pg by simp
  from res 1 2 show ?thesis by blast
qed

text \<open>The same for \<open>build_pptx\<close>, on a list that is not empty.\<close>

lemma build_pptx_pages:
  assumes "0 < per_row" "0 < per_col" "imgs \<noteq> []"
  shows "\<exists>prs. build_pptx imgs per_row per_col hspace_fixed vspace_fixed slide_w_in slide_h_in = Inr prs
          \<and> int (length (slides prs)) = \<lceil>(of_nat (length imgs) :: rat) / of_int (per_row * per_col)\<rceil>
          \<and> (\<forall>j < length (slides prs). picture_paths (slides prs ! j)
                = take (nat (per_row * per_col)) (drop (j * nat (per_row * per_col)) imgs))"
proof -
  let ?k = "per_row * per_col"
  have k: "0 < ?k" using assms(1,2) by simp
  obtain g where g: "build_pptx_grid per_row per_col hspace_fixed vspace_fixed slide_w_in slide_h_in
      = Inr g"
  proof -
    have "per_row \<noteq> 0" "per_col \<noteq> 0" using assms(1,2) by simp_all
    from build_pptx_grid_ok [OF this] that show ?thesis by blast
  qed
  have "\<exists>finished' slide' r' c' T.
           place_imgs g per_row per_col (int (length imgs)) 0 ([], [], 0, 0) imgs
             = (finished', slide', r', c')
         \<and> finished' @ [slide'] = [] @ T \<and> T \<noteq> []
         \<and> concat (map picture_paths T) = picture_paths [] @ imgs
         \<and> (\<forall>p \<in> set (butlast T). int (length (picture_paths p)) = per_row * per_col)
         \<and> int (length (picture_paths (last T))) \<le> per_row * per_col
         \<and> (picture_paths [] \<noteq> [] \<or> imgs \<noteq> [] \<longrightarrow> picture_paths (last T) \<noteq> [])"
    using assms(1,2) by (intro place_imgs_pages) (simp_all add: picture_paths_Nil)
  then have "\<exists>finished' slide' r' c' T.
           place_imgs g per_row per_col (int (length imgs)) 0 ([], [], 0, 0) imgs
             = (finished', slide', r', c')
         \<and> finished' @ [slide'] = T \<and> T \<noteq> []
         \<and> concat (map picture_paths T) = imgs
         \<and> (\<forall>p \<in> set (butlast T). int (length (picture_paths p)) = per_row * per_col)
         \<and> int (length (picture_paths (last T))) \<le> per_row * per_col
         \<and> picture_paths (last T) \<noteq> []"
    using assms(3) by (simp add: picture_paths_Nil)
  then obtain finished' slide' r' c' T where T:
    "place_imgs g per_row per_col (int (length imgs)) 0 ([], [], 0, 0) imgs
       = (finished', slide', r', c')"
    "finished' @ [slide'] = T" "T \<noteq> []"
    "concat (map picture_paths T) = imgs"
    "\<forall>p \<in> set (butlast T). int (length (picture_paths p)) = ?k"
    "int (length (picture_paths (last T))) \<le> ?k"
    "picture_paths (last T) \<noteq> []"
    by blast
  let ?prs = "\<lparr>slide_width = Inches slide_w_in, slide_height = Inches slide_h_in, slides = T\<rparr>"
  have res: "build_pptx imgs per_row per_col hspace_fixed vspace_fixed slide_w_in slide_h_in = Inr ?prs"
    by (simp add: build_pptx_def g T(1) T(2))
  have each: "p \<noteq> [] \<and> length p \<le> nat ?k" if "p \<in> set (map picture_paths T)" for p
  proof -
    from that obtain s where s: "s \<in> set T" "p = picture_paths s" by auto
    from T(3) have "set (butlast T @ [last T]) = set T" by simp
    moreover have "set (butlast T @ [last T]) = set (butlast T) \<union> {last T}"
      by (simp del: append_butlast_last_id)
    ultimately have "set T = set (butlast T) \<union> {last T}" by simp
    with s(1) consider "s \<in> set (butlast T)" | "s = last T" by auto
    then show ?thesis
    proof cases
      case 1
      with T(5) have "int (length p) = ?k" by (simp add: s(2))
      with k show ?thesis by auto
    next
      case 2
      with T(6,7) show ?thesis by (simp add: s(2))
    qed
  qed
  have bl: "length p = nat ?k" if "p \<in> set (butlast (map picture_paths T))" for p
  proof -
    from that have "p \<in> set (map picture_paths (butlast T))" by (simp add: map_butlast)
    then obtain s where "s \<in> set (butlast T)" "p = picture_paths s" by auto
    with T(5) show ?thesis by auto
  qed
  have "paginated_as (nat ?k) imgs (map picture_paths T)"
    unfolding paginated_as_def using T(4) each bl by blast
  moreover have nk: "0 < nat ?k" using k by simp
  ultimately have pg: "int (length (map picture_paths T)) = \<lceil>(of_nat (length imgs) :: rat) / of_nat (nat ?k)\<rceil>
       \<and> (\<forall>j < length (map picture_paths T). map picture_paths T ! j = take (nat ?k) (drop (j * nat ?k) imgs))"
    by (intro paginated_as_pages)
  have ofk: "(of_nat (nat ?k) :: rat) = of_int ?k" using k by simp
  have 1: "int (length (slides ?prs)) = \<lceil>(of_nat (length imgs) :: rat) / of_int ?k\<rceil>"
    using pg by (simp add: ofk)
  have 2: "\<forall>j < length (slides ?prs). picture_paths (slides ?prs ! j)
      = take (nat ?k) (drop (j * nat ?k) imgs)"
    using pg by simp
  from res 1 2 show ?thesis by blast
qed

lemma paginated_wrapper_empty:
  "cols * rows \<noteq> 0 \<Longrightarrow>
   add_fill_grid_slides_no_captions_paginated native prs [] cols rows margin_in hspace_in vspace_in
     fill_order = Inr prs"
  by (simp add: add_fill_grid_slides_no_captions_paginated_def Let_def py_range.simps)

lemma build_pptx_empty:
  assumes "per_row \<noteq> 0" "per_col \<noteq> 0"
  shows "build_pptx [] per_row per_col hspace_fixed vspace_fixed slide_w_in slide_h_in
     = Inr \<lparr>slide_width = Inches slide_w_in, slide_height = Inches slide_h_in, slides = [[]]\<rparr>"
proof -
  from build_pptx_grid_ok [OF assms] obtain g where
    "build_pptx_grid per_row per_col hspace_fixed vspace_fixed slide_w_in slide_h_in = Inr g"
    by blast
  then show ?thesis by (simp add: build_pptx_def)
qed

text \<open>
  Claim C1 at the empty list. \<open>build_pptx\<close> opens its first slide before the loop, so for
  no image on a grid of 4 columns and 3 rows the deck has one (empty) slide, where
  \<open>ceil(0 / 12)\<close> is 0.
\<close>

theorem build_pptx_empty_grid_4x3:
  "build_pptx [] 4 3 None None (13 / 2) (15 / 2)
     = Inr \<lparr>slide_width = Inches (13 / 2), slide_height = Inches (15 / 2), slides = [[]]\<rparr>
   \<and> int (length [[] :: shape list]) = 1
   \<and> \<lceil>(of_nat (length ([] :: ustring list)) :: rat) / of_int (3 * 4)\<rceil> = 0"
  by (simp add: build_pptx_empty)

text \<open>
  Claim C8. With the defaults of the command line (8 per row, 6 per column) and no image,
  \<open>build_pptx\<close> returns a deck of one empty slide, not of zero slides; the paginating
  wrapper adds no slide to the deck.
\<close>

theorem build_pptx_empty_deck:
  "build_pptx [] 8 6 (Some 0) (Some (fl (4 / 100))) (13 / 2) (15 / 2)
     = Inr \<lparr>slide_width = Inches (13 / 2), slide_height = Inches (15 / 2), slides = [[]]\<rparr>
   \<and> add_fill_grid_slides_no_captions_paginated native0 deck0 [] 8 18 (fl (5 / 100)) 0 (fl (5 / 100))
         (ustr ''row'') = Inr deck0"
  by (simp add: build_pptx_empty paginated_wrapper_empty)

section \<open>Centring the grid\<close>











section \<open>Normalization of names\<close>

subsection \<open>Stripping\<close>

lemma last_dropWhile: "dropWhile p xs \<noteq> [] \<Longrightarrow> last (dropWhile p xs) = last xs"
  by (induction xs) (auto split: if_splits)

lemma strip_where_fixed:
  assumes "y \<noteq> []" "\<not> p (hd y)" "\<not> p (last y)"
  shows "strip_where p y = y"
proof -
  from assms(1,2) have 1: "dropWhile p y = y" by (cases y) auto
  from assms(1,3) have "\<not> p (hd (rev y))" by (simp add: hd_rev)
  with assms(1) have "dropWhile p (rev y) = rev y" by (cases "rev y") auto
  with 1 show ?thesis by (simp add: strip_where_def)
qed

lemma strip_where_ends:
  assumes "strip_where p y \<noteq> []"
  shows "\<not> p (hd (strip_where p y)) \<and> \<not> p (last (strip_where p y))"
proof -
  let ?z = "dropWhile p y" and ?w = "dropWhile p (rev (dropWhile p y))"
  from assms have w: "?w \<noteq> []" by (simp add: strip_where_def)
  have z: "?z \<noteq> []"
  proof
    assume "?z = []"
    with w show False by (metis dropWhile.simps(1) rev.simps(1))
  qed
  from w have "\<not> p (hd ?w)" by (rule hd_dropWhile)
  then have l: "\<not> p (last (rev ?w))" using w by (simp add: last_rev)
  from w have "last ?w = last (rev ?z)" by (rule last_dropWhile)
  also have "\<dots> = hd ?z" using z by (simp add: last_rev)
  finally have "hd (rev ?w) = hd ?z" using w by (simp add: hd_rev)
  moreover from z have "\<not> p (hd ?z)" by (rule hd_dropWhile)
  ultimately show ?thesis using l by (simp add: strip_where_def)
qed

lemma set_strip_where: "set (strip_where p y) \<subseteq> set y"
proof -
  have "set (strip_where p y) = set (dropWhile p (rev (dropWhile p y)))"
    by (simp add: strip_where_def)
  also have "\<dots> \<subseteq> set (rev (dropWhile p y))" by (rule set_dropWhileD [THEN subsetI])
  also have "\<dots> \<subseteq> set y" using set_dropWhileD [of _ p y] by auto
  finally show ?thesis .
qed

subsection \<open>Parenthesized groups\<close>

lemma paren_fix_no_open: "40 \<notin> set a \<Longrightarrow> paren_fix (a @ r) = a @ paren_fix r"
  by (induction a) auto

lemma paren_group_plain: "41 \<notin> set a \<Longrightarrow> 95 \<notin> set a \<Longrightarrow> paren_group (a @ r) = a @ paren_group r"
  by (induction a) auto

lemma paren_fix_shape:
  "length (paren_fix y) = length y \<and> (\<forall>i < length y. paren_fix y ! i = y ! i \<or> paren_fix y ! i = 47)"
  "length (paren_group y) = length y \<and> (\<forall>i < length y. paren_group y ! i = y ! i \<or> paren_group y ! i = 47)"
  by (induction y and y rule: paren_fix_paren_group.induct) (auto simp: nth_Cons split: nat.splits)

lemma paren_fix_Nil_iff: "paren_fix y = [] \<longleftrightarrow> y = []"
  using paren_fix_shape(1) [of y] by auto

lemma set_paren_fix: "c \<in> set (paren_fix y) \<Longrightarrow> c \<in> set y \<or> c = 47"
  using paren_fix_shape(1) [of y] by (auto simp: in_set_conv_nth) metis

lemma hd_paren_fix: "y \<noteq> [] \<Longrightarrow> hd (paren_fix y) = hd y"
  by (cases y) auto

lemma last_paren_fix: "y \<noteq> [] \<Longrightarrow> last (paren_fix y) = last y \<or> last (paren_fix y) = 47"
proof -
  assume y: "y \<noteq> []"
  then have ne: "paren_fix y \<noteq> []" by (simp add: paren_fix_Nil_iff)
  have len: "length (paren_fix y) = length y" using paren_fix_shape(1) by blast
  from y have "length y - 1 < length y" by (cases y) auto
  with paren_fix_shape(1) [of y]
  have "paren_fix y ! (length y - 1) = y ! (length y - 1) \<or> paren_fix y ! (length y - 1) = 47"
    by blast
  then show ?thesis using y ne len by (simp add: last_conv_nth)
qed

lemma paren_close_iff:
  "41 \<in> set (paren_fix y) \<longleftrightarrow> 41 \<in> set y"
  "41 \<in> set (paren_group y) \<longleftrightarrow> 41 \<in> set y"
  by (induction y and y rule: paren_fix_paren_group.induct) auto

lemma paren_fix_idem:
  "paren_fix (paren_fix y) = paren_fix y"
  "paren_group (paren_group y) = paren_group y"
  by (induction y and y rule: paren_fix_paren_group.induct) (auto simp: paren_close_iff)

subsection \<open>Lowering, between inert characters\<close>

lemma inert_not_zero_width: "inert c \<Longrightarrow> \<not> zero_width c"
  by (auto simp: inert_def zero_width_def isspace_def)

lemma inert_induct [consumes 0, case_names free split]:
  assumes free: "\<And>a. \<forall>c \<in> set a. \<not> inert c \<Longrightarrow> P a"
    and split: "\<And>a c b. \<forall>c \<in> set a. \<not> inert c \<Longrightarrow> inert c \<Longrightarrow> P b \<Longrightarrow> P (a @ c # b)"
  shows "P x"
proof (induction "length x" arbitrary: x rule: less_induct)
  case less
  show ?case
  proof (cases "\<forall>c \<in> set x. \<not> inert c")
    case True
    then show ?thesis by (rule free)
  next
    case False
    let ?a = "takeWhile (\<lambda>c. \<not> inert c) x" and ?r = "dropWhile (\<lambda>c. \<not> inert c) x"
    from False have "?r \<noteq> []" by auto
    then obtain c b where r: "?r = c # b" by (cases ?r) auto
    then have c: "inert c" using hd_dropWhile [of "\<lambda>c. \<not> inert c" x] by auto
    have x: "x = ?a @ c # b" using r takeWhile_dropWhile_id [of "\<lambda>c. \<not> inert c" x] by simp
    have a: "\<forall>c \<in> set ?a. \<not> inert c" by (auto dest: set_takeWhileD)
    have "length ?r \<le> length x" by (rule length_dropWhile_le)
    then have "length b < length x" by (simp add: r)
    then have "P b" by (rule less)
    with a c have "P (?a @ c # b)" by (rule split)
    with x show ?thesis by simp
  qed
qed

lemma lower_ok_D:
  assumes "lower_ok lower"
  shows "lower [] = []"
    and "s \<noteq> [] \<Longrightarrow> lower s \<noteq> []"
    and "lower (lower s) = lower s"
    and "inert c \<Longrightarrow> lower (a @ c # b) = lower a @ c # lower b"
    and "\<forall>c \<in> set s. \<not> inert c \<and> \<not> zero_width c
           \<Longrightarrow> \<forall>c \<in> set (lower s). \<not> inert c \<and> \<not> zero_width c"
  using assms unfolding lower_ok_def by blast+

lemma lower_keeps_clean:
  assumes ok: "lower_ok lower"
  shows "(\<forall>c \<in> set x. \<not> zero_width c) \<longrightarrow>
     (\<forall>c \<in> set (lower x). \<not> zero_width c)
     \<and> (32 \<notin> set x \<longrightarrow> 32 \<notin> set (lower x))
     \<and> (41 \<in> set (lower x) \<longleftrightarrow> 41 \<in> set x)
     \<and> (x \<noteq> [] \<longrightarrow> \<not> isspace (last x) \<longrightarrow> \<not> isspace (last (lower x)))
     \<and> (paren_fix x = x \<longrightarrow> paren_fix (lower x) = lower x)
     \<and> (paren_group x = x \<longrightarrow> paren_group (lower x) = lower x)"
proof (induction x rule: inert_induct)
  case (free a)
  show ?case
  proof
    assume zw: "\<forall>c \<in> set a. \<not> zero_width c"
    with free have "\<forall>c \<in> set a. \<not> inert c \<and> \<not> zero_width c" by blast
    then have la: "\<forall>c \<in> set (lower a). \<not> inert c \<and> \<not> zero_width c"
      by (rule lower_ok_D(5) [OF ok])
    have i32: "inert 32" "inert 40" "inert 41" "inert 95" by (simp_all add: inert_def isspace_def)
    from la i32 have no: "32 \<notin> set (lower a)" "40 \<notin> set (lower a)" "41 \<notin> set (lower a)"
      "95 \<notin> set (lower a)" by blast+
    from free i32 have noa: "41 \<notin> set a" by blast
    have pf: "paren_fix (lower a) = lower a"
      using paren_fix_no_open [OF no(2), of "[]"] by simp
    have pg: "paren_group (lower a) = lower a"
      using paren_group_plain [OF no(3,4), of "[]"] by simp
    have last: "\<not> isspace (last (lower a))" if "a \<noteq> []"
    proof -
      from that have "lower a \<noteq> []" by (rule lower_ok_D(2) [OF ok])
      then have "last (lower a) \<in> set (lower a)" by simp
      with la have "\<not> inert (last (lower a))" by blast
      then show ?thesis by (simp add: inert_def)
    qed
    from la no noa pf pg last show "(\<forall>c \<in> set (lower a). \<not> zero_width c)
     \<and> (32 \<notin> set a \<longrightarrow> 32 \<notin> set (lower a))
     \<and> (41 \<in> set (lower a) \<longleftrightarrow> 41 \<in> set a)
     \<and> (a \<noteq> [] \<longrightarrow> \<not> isspace (last a) \<longrightarrow> \<not> isspace (last (lower a)))
     \<and> (paren_fix a = a \<longrightarrow> paren_fix (lower a) = lower a)
     \<and> (paren_group a = a \<longrightarrow> paren_group (lower a) = lower a)"
      by blast
  qed
next
  case (split a c b)
  show ?case
  proof
    assume zw: "\<forall>c \<in> set (a @ c # b). \<not> zero_width c"
    then have zwa: "\<forall>c \<in> set a. \<not> zero_width c" and zwb: "\<forall>c \<in> set b. \<not> zero_width c"
      by auto
    from split.IH zwb have IH:
      "\<forall>c \<in> set (lower b). \<not> zero_width c"
      "32 \<notin> set b \<Longrightarrow> 32 \<notin> set (lower b)"
      "41 \<in> set (lower b) \<longleftrightarrow> 41 \<in> set b"
      "b \<noteq> [] \<Longrightarrow> \<not> isspace (last b) \<Longrightarrow> \<not> isspace (last (lower b))"
      "paren_fix b = b \<Longrightarrow> paren_fix (lower b) = lower b"
      "paren_group b = b \<Longrightarrow> paren_group (lower b) = lower b"
      by blast+
    from split.hyps(1) zwa have "\<forall>c \<in> set a. \<not> inert c \<and> \<not> zero_width c" by blast
    then have la: "\<forall>c \<in> set (lower a). \<not> inert c \<and> \<not> zero_width c"
      by (rule lower_ok_D(5) [OF ok])
    have i32: "inert 32" "inert 40" "inert 41" "inert 95" by (simp_all add: inert_def isspace_def)
    from la i32 have no: "32 \<notin> set (lower a)" "40 \<notin> set (lower a)" "41 \<notin> set (lower a)"
      "95 \<notin> set (lower a)" by blast+
    from split.hyps(1) i32 have noa: "32 \<notin> set a" "40 \<notin> set a" "41 \<notin> set a" "95 \<notin> set a"
      by blast+
    have lx: "lower (a @ c # b) = lower a @ c # lower b"
      using split.hyps(2) by (rule lower_ok_D(4) [OF ok])
    have czw: "\<not> zero_width c" using split.hyps(2) by (rule inert_not_zero_width)
    have 1: "\<forall>d \<in> set (lower (a @ c # b)). \<not> zero_width d"
      using la czw IH(1) by (auto simp: lx)
    have 2: "32 \<notin> set (lower (a @ c # b))" if "32 \<notin> set (a @ c # b)"
      using that no(1) IH(2) by (auto simp: lx)
    have 3: "41 \<in> set (lower (a @ c # b)) \<longleftrightarrow> 41 \<in> set (a @ c # b)"
      using no(3) noa(3) IH(3) by (auto simp: lx)
    have 4: "\<not> isspace (last (lower (a @ c # b)))" if "\<not> isspace (last (a @ c # b))"
    proof (cases "b = []")
      case True
      with that show ?thesis unfolding lx by (simp add: lower_ok_D(1) [OF ok])
    next
      case False
      then have "lower b \<noteq> []" by (rule lower_ok_D(2) [OF ok])
      moreover from that False have "\<not> isspace (last b)" by simp
      ultimately show ?thesis using IH(4) [OF False] by (simp add: lx)
    qed
    have 5: "paren_fix (lower (a @ c # b)) = lower (a @ c # b)" if "paren_fix (a @ c # b) = a @ c # b"
    proof -
      from that have cb: "paren_fix (c # b) = c # b"
        by (simp add: paren_fix_no_open [OF noa(2)])
      have "paren_fix (c # lower b) = c # lower b"
      proof (cases "c = 40 \<and> 41 \<in> set b")
        case True
        with cb have "paren_group b = b" by simp
        then have "paren_group (lower b) = lower b" by (rule IH(6))
        with True IH(3) show ?thesis by simp
      next
        case False
        with cb have "paren_fix b = b" by auto
        then have "paren_fix (lower b) = lower b" by (rule IH(5))
        with False IH(3) show ?thesis by auto
      qed
      then show ?thesis by (simp add: lx paren_fix_no_open [OF no(2)])
    qed
    have 6: "paren_group (lower (a @ c # b)) = lower (a @ c # b)" if "paren_group (a @ c # b) = a @ c # b"
    proof -
      from that have cb: "paren_group (c # b) = c # b"
        by (simp add: paren_group_plain [OF noa(3,4)])
      have "paren_group (c # lower b) = c # lower b"
      proof (cases "c = 41")
        case True
        with cb have "paren_fix b = b" by simp
        then have "paren_fix (lower b) = lower b" by (rule IH(5))
        with True show ?thesis by simp
      next
        case False
        with cb have c95: "c \<noteq> 95" and "paren_group b = b" by (auto split: if_splits)
        then have "paren_group (lower b) = lower b" using IH(6) by blast
        with False c95 show ?thesis by simp
      qed
      then show ?thesis by (simp add: lx paren_group_plain [OF no(3,4)])
    qed
    from 1 2 3 4 5 6 show "(\<forall>d \<in> set (lower (a @ c # b)). \<not> zero_width d)
     \<and> (32 \<notin> set (a @ c # b) \<longrightarrow> 32 \<notin> set (lower (a @ c # b)))
     \<and> (41 \<in> set (lower (a @ c # b)) \<longleftrightarrow> 41 \<in> set (a @ c # b))
     \<and> (a @ c # b \<noteq> [] \<longrightarrow> \<not> isspace (last (a @ c # b)) \<longrightarrow> \<not> isspace (last (lower (a @ c # b))))
     \<and> (paren_fix (a @ c # b) = a @ c # b \<longrightarrow> paren_fix (lower (a @ c # b)) = lower (a @ c # b))
     \<and> (paren_group (a @ c # b) = a @ c # b \<longrightarrow> paren_group (lower (a @ c # b)) = lower (a @ c # b))"
      by blast
  qed
qed

lemma lower_keeps_hd:
  assumes ok: "lower_ok lower" and zw: "\<forall>c \<in> set x. \<not> zero_width c"
    and x: "x \<noteq> []" "\<not> isspace (hd x)"
  shows "lower x \<noteq> [] \<and> \<not> isspace (hd (lower x))"
proof (cases "\<forall>c \<in> set x. \<not> inert c")
  case True
  with zw have "\<forall>c \<in> set x. \<not> inert c \<and> \<not> zero_width c" by blast
  then have la: "\<forall>c \<in> set (lower x). \<not> inert c \<and> \<not> zero_width c"
    by (rule lower_ok_D(5) [OF ok])
  from x(1) have ne: "lower x \<noteq> []" by (rule lower_ok_D(2) [OF ok])
  then have "hd (lower x) \<in> set (lower x)" by simp
  with la have "\<not> inert (hd (lower x))" by blast
  with ne show ?thesis by (simp add: inert_def)
next
  case False
  let ?a = "takeWhile (\<lambda>c. \<not> inert c) x" and ?r = "dropWhile (\<lambda>c. \<not> inert c) x"
  from False have "?r \<noteq> []" by auto
  then obtain c b where r: "?r = c # b" by (cases ?r) auto
  then have c: "inert c" using hd_dropWhile [of "\<lambda>c. \<not> inert c" x] by auto
  have xs: "x = ?a @ c # b" using r takeWhile_dropWhile_id [of "\<lambda>c. \<not> inert c" x] by simp
  have lx: "lower x = lower ?a @ c # lower b"
    by (subst xs) (rule lower_ok_D(4) [OF ok c])
  show ?thesis
  proof (cases "?a = []")
    case True
    with xs have "hd x = c" by (metis append_Nil list.sel(1))
    with x(2) True show ?thesis by (simp add: lx lower_ok_D(1) [OF ok])
  next
    case na: False
    have "\<forall>c \<in> set ?a. \<not> inert c \<and> \<not> zero_width c"
      using zw by (auto dest: set_takeWhileD)
    then have la: "\<forall>c \<in> set (lower ?a). \<not> inert c \<and> \<not> zero_width c"
      by (rule lower_ok_D(5) [OF ok])
    from na have ne: "lower ?a \<noteq> []" by (rule lower_ok_D(2) [OF ok])
    then have "hd (lower ?a) \<in> set (lower ?a)" by simp
    with la have "\<not> inert (hd (lower ?a))" by blast
    with ne show ?thesis by (simp add: lx inert_def)
  qed
qed

subsection \<open>Idempotence\<close>

lemma ascii_lower_ok: "lower_ok ascii_lower"
proof -
  let ?f = "\<lambda>c::nat. if 65 \<le> c \<and> c \<le> 90 then c + 32 else c"
  have same: "?f c = c" if "inert c" for c
    using that by (auto simp: inert_def isspace_def)
  have keep: "\<not> inert (?f c) \<and> \<not> zero_width (?f c)" if "\<not> inert c \<and> \<not> zero_width c" for c
    using that by (auto simp: inert_def isspace_def zero_width_def)
  have 1: "ascii_lower [] = []" by (simp add: ascii_lower_def)
  have 2: "\<forall>s. s \<noteq> [] \<longrightarrow> ascii_lower s \<noteq> []" by (simp add: ascii_lower_def)
  have 3: "\<forall>s. ascii_lower (ascii_lower s) = ascii_lower s" by (simp add: ascii_lower_def)
  have 4: "\<forall>a c b. inert c \<longrightarrow> ascii_lower (a @ c # b) = ascii_lower a @ c # ascii_lower b"
  proof (intro allI impI)
    fix a c b assume "inert c"
    then have "?f c = c" by (rule same)
    then show "ascii_lower (a @ c # b) = ascii_lower a @ c # ascii_lower b"
      by (simp add: ascii_lower_def)
  qed
  have 5: "\<forall>s. (\<forall>c \<in> set s. \<not> inert c \<and> \<not> zero_width c)
      \<longrightarrow> (\<forall>c \<in> set (ascii_lower s). \<not> inert c \<and> \<not> zero_width c)"
  proof (intro allI impI ballI)
    fix s d
    assume s: "\<forall>c \<in> set s. \<not> inert c \<and> \<not> zero_width c" and "d \<in> set (ascii_lower s)"
    then obtain c where "c \<in> set s" "d = ?f c" by (auto simp: ascii_lower_def)
    with s keep [of c] show "\<not> inert d \<and> \<not> zero_width d" by blast
  qed
  from 1 2 3 4 5 show ?thesis unfolding lower_ok_def by blast
qed

lemma last_filter_keep: "xs \<noteq> [] \<Longrightarrow> p (last xs) \<Longrightarrow> last (filter p xs) = last xs"
proof (induction xs rule: rev_induct)
  case Nil
  then show ?case by simp
next
  case (snoc x xs)
  then show ?case by simp
qed

lemma hd_filter_keep: "xs \<noteq> [] \<Longrightarrow> p (hd xs) \<Longrightarrow> hd (filter p xs) = hd xs"
  by (cases xs) auto

text \<open>The string that \<open>_normalize_name_for_match\<close> lowers at its end.\<close>

text \<open>The string that \<open>_normalize_name_for_match\<close> lowers at its end.\<close>

lemma before_lower_clean:
  fixes s :: ustring
  defines "x \<equiv> paren_fix (filter (\<lambda>c. c \<noteq> 32) (py_strip (filter (\<lambda>c. \<not> zero_width c) s)))"
  shows "\<forall>c \<in> set x. \<not> zero_width c" "32 \<notin> set x" "paren_fix x = x"
    "x \<noteq> [] \<Longrightarrow> \<not> isspace (hd x) \<and> \<not> isspace (last x)"
proof -
  define z where "z = filter (\<lambda>c. \<not> zero_width c) s"
  define t where "t = py_strip z"
  define r where "r = filter (\<lambda>c. c \<noteq> 32) t"
  have x: "x = paren_fix r" by (simp add: x_def r_def t_def z_def)
  have tz: "set t \<subseteq> set z" unfolding t_def py_strip_def by (rule set_strip_where)
  have r: "\<not> zero_width c \<and> c \<noteq> 32" if "c \<in> set r" for c
  proof -
    from that have "c \<noteq> 32" "c \<in> set t" by (simp_all add: r_def)
    with tz have "c \<in> set z" by blast
    then have "\<not> zero_width c" by (simp add: z_def)
    with \<open>c \<noteq> 32\<close> show ?thesis by simp
  qed
  have z47: "\<not> zero_width 47" "\<not> isspace 47" by (simp_all add: zero_width_def isspace_def)
  show "\<forall>c \<in> set x. \<not> zero_width c"
  proof
    fix c assume "c \<in> set x"
    then have "c \<in> set r \<or> c = 47" unfolding x by (rule set_paren_fix)
    then show "\<not> zero_width c" using r [of c] z47(1) by blast
  qed
  show "32 \<notin> set x"
  proof
    assume "32 \<in> set x"
    then have "32 \<in> set r \<or> (32::nat) = 47" unfolding x by (rule set_paren_fix)
    then have "32 \<in> set r" by simp
    with r [of 32] show False by simp
  qed
  show "paren_fix x = x" unfolding x by (rule paren_fix_idem)
  show "\<not> isspace (hd x) \<and> \<not> isspace (last x)" if "x \<noteq> []"
  proof -
    from that have rne: "r \<noteq> []" unfolding x by (simp add: paren_fix_Nil_iff)
    have tne: "t \<noteq> []"
    proof
      assume "t = []"
      then have "r = []" by (simp add: r_def)
      with rne show False by simp
    qed
    then have "strip_where isspace z \<noteq> []" by (simp add: t_def py_strip_def)
    then have "\<not> isspace (hd (strip_where isspace z)) \<and> \<not> isspace (last (strip_where isspace z))"
      by (rule strip_where_ends)
    then have ends: "\<not> isspace (hd t)" "\<not> isspace (last t)"
      by (simp_all add: t_def py_strip_def)
    have s32: "isspace 32" by (simp add: isspace_def)
    with ends have ne32: "hd t \<noteq> 32" "last t \<noteq> 32" by auto
    have "hd r = hd t" unfolding r_def using tne ne32(1) by (rule hd_filter_keep)
    moreover have "last r = last t" unfolding r_def using tne ne32(2) by (rule last_filter_keep)
    ultimately have re: "\<not> isspace (hd r)" "\<not> isspace (last r)" using ends by simp_all
    have "hd x = hd r" unfolding x using rne by (rule hd_paren_fix)
    moreover have "last x = last r \<or> last x = 47" unfolding x using rne by (rule last_paren_fix)
    ultimately show ?thesis using re z47(2) by auto
  qed
qed

text \<open>
  Claim C4. \<open>_normalize_name_for_match\<close> is idempotent, for every input string, with any
  lowering function that has the properties of \<open>str.lower\<close> collected in \<open>lower_ok\<close>.
\<close>

theorem normalize_idempotent:
  assumes ok: "lower_ok lower"
  shows "normalize_name_for_match lower (normalize_name_for_match lower s)
       = normalize_name_for_match lower s"
proof -
  define x where "x = paren_fix (filter (\<lambda>c. c \<noteq> 32) (py_strip (filter (\<lambda>c. \<not> zero_width c) s)))"
  have n: "normalize_name_for_match lower s = lower x"
    by (simp add: normalize_name_for_match_def x_def)
  note cl = before_lower_clean [of s, folded x_def]
  have lc: "(\<forall>c \<in> set (lower x). \<not> zero_width c)
     \<and> (32 \<notin> set x \<longrightarrow> 32 \<notin> set (lower x))
     \<and> (41 \<in> set (lower x) \<longleftrightarrow> 41 \<in> set x)
     \<and> (x \<noteq> [] \<longrightarrow> \<not> isspace (last x) \<longrightarrow> \<not> isspace (last (lower x)))
     \<and> (paren_fix x = x \<longrightarrow> paren_fix (lower x) = lower x)
     \<and> (paren_group x = x \<longrightarrow> paren_group (lower x) = lower x)"
    using lower_keeps_clean [OF ok, of x] cl(1) by blast
  let ?y = "lower x"
  have 1: "filter (\<lambda>c. \<not> zero_width c) ?y = ?y" using lc by simp
  have 2: "py_strip ?y = ?y"
  proof (cases "x = []")
    case True
    then show ?thesis by (simp add: lower_ok_D(1) [OF ok] py_strip_def strip_where_def)
  next
    case False
    from cl(4) [OF False] have e: "\<not> isspace (hd x)" "\<not> isspace (last x)" by simp_all
    from lower_keeps_hd [OF ok cl(1) False e(1)] have "?y \<noteq> []" "\<not> isspace (hd ?y)" by simp_all
    moreover from lc False e(2) have "\<not> isspace (last ?y)" by blast
    ultimately show ?thesis unfolding py_strip_def by (rule strip_where_fixed)
  qed
  have 3: "filter (\<lambda>c. c \<noteq> 32) ?y = ?y" using lc cl(2) by (simp add: filter_id_conv) blast
  have 4: "paren_fix ?y = ?y" using lc cl(3) by blast
  have "normalize_name_for_match lower ?y = lower ?y"
    by (simp add: normalize_name_for_match_def 1 2 3 4)
  also have "\<dots> = ?y" by (rule lower_ok_D(3) [OF ok])
  finally show ?thesis by (simp only: n)
qed

lemmas norm_eval = normalize_name_for_match_def ascii_lower_def zero_width_def py_strip_def
  strip_where_def isspace_def ustr_def

theorem normalize_idempotent_witness:
  "lower_ok ascii_lower
   \<and> normalize_name_for_match ascii_lower (ustr ''m - (V_A_K) 80 '') = ustr ''m-(v/a/k)80''
   \<and> normalize_name_for_match ascii_lower
        (normalize_name_for_match ascii_lower (ustr ''m - (V_A_K) 80 ''))
      = normalize_name_for_match ascii_lower (ustr ''m - (V_A_K) 80 '')"
proof -
  have "normalize_name_for_match ascii_lower (ustr ''m - (V_A_K) 80 '') = ustr ''m-(v/a/k)80''"
    by (simp add: norm_eval)
  with normalize_idempotent [OF ascii_lower_ok, of "ustr ''m - (V_A_K) 80 ''"] ascii_lower_ok
  show ?thesis by simp
qed

section \<open>Round trip of the disambiguation suffix\<close>

lemmas clean_eval = clean_construct_name_def apply_suffix_def ustr_def p3distinct_def
  py_replace.simps sub_hplc_prefix_def py_strip_def py_strip_chars_def strip_where_def
  isspace_def

lemma p3distinct_shape: "p3distinct = 95 # tl p3distinct" "95 \<notin> set (tl p3distinct)"
  by (simp_all add: p3distinct_def ustr_def)

lemma p3distinct_no_overlap:
  assumes "\<not> sublist p3distinct x" and "x \<noteq> []"
  shows "\<not> prefix p3distinct (x @ p3distinct)"
proof
  assume "prefix p3distinct (x @ p3distinct)"
  then consider "prefix p3distinct x" | us where "p3distinct = x @ us" "prefix us p3distinct"
    by (auto simp: prefix_append)
  then show False
  proof cases
    case 1
    then show False using assms(1) by (auto dest: prefix_imp_sublist)
  next
    case 2
    show False
    proof (cases us)
      case Nil
      with 2 have "p3distinct = x" by simp
      with assms(1) show False by simp
    next
      case (Cons u us')
      with 2(2) have "u = 95"
        by (subst (asm) p3distinct_shape(1)) simp
      from assms(2) obtain c x' where x: "x = c # x'" by (cases x) auto
      from 2(1) x have "tl p3distinct = tl (c # x' @ us)" by simp
      then have "tl p3distinct = x' @ us" by simp
      with Cons \<open>u = 95\<close> have "95 \<in> set (tl p3distinct)" by simp
      with p3distinct_shape(2) show False by simp
    qed
  qed
qed

lemma py_replace_p3distinct_self: "py_replace p3distinct [] p3distinct = []"
proof -
  have "p3distinct \<noteq> []" by (subst p3distinct_shape(1)) simp
  then show ?thesis
    by (subst py_replace.simps) (simp add: py_replace.simps [of _ _ "[]"])
qed

lemma py_replace_applied_suffix:
  "\<not> sublist p3distinct x \<Longrightarrow> py_replace p3distinct [] (x @ p3distinct) = x"
proof (induction x)
  case Nil
  then show ?case by (simp add: py_replace_p3distinct_self)
next
  case (Cons c x)
  have ne: "p3distinct \<noteq> []" by (subst p3distinct_shape(1)) simp
  from Cons.prems have "\<not> sublist p3distinct x" by (auto simp: sublist_Cons_right)
  with Cons.IH have IH: "py_replace p3distinct [] (x @ p3distinct) = x" .
  from Cons.prems have "\<not> prefix p3distinct ((c # x) @ p3distinct)"
    by (intro p3distinct_no_overlap) simp_all
  then show ?case
    by (subst py_replace.simps) (simp add: ne IH)
qed

lemma py_replace_absent:
  "\<not> sublist old x \<Longrightarrow> old \<noteq> [] \<Longrightarrow> py_replace old new x = x"
proof (induction x)
  case Nil
  then show ?case by (simp add: py_replace.simps [of _ _ "[]"])
next
  case (Cons c x)
  from Cons.prems have "\<not> sublist old x" "\<not> prefix old (c # x)"
    by (auto simp: sublist_Cons_right)
  with Cons show ?case
    by (subst py_replace.simps) simp
qed

text \<open>
  Claim C7, as amended. For a name \<open>x\<close> that does not contain \<open>_p3distinct\<close>, tagging it and
  then cleaning it gives what cleaning \<open>x\<close> itself gives: the tag is removed exactly, and
  the rest of \<open>_clean_construct_name\<close> (prefix removal, trimming) still applies. The
  result is \<open>x\<close> whenever \<open>x\<close> is already a cleaned name.
\<close>

theorem suffix_round_trip_cleaned:
  assumes "\<not> sublist p3distinct x"
  shows "clean_construct_name (apply_suffix x p3distinct) = clean_construct_name x
       \<and> (clean_construct_name x = x \<longrightarrow> clean_construct_name (apply_suffix x p3distinct) = x)"
proof -
  have "p3distinct \<noteq> []" by (subst p3distinct_shape(1)) simp
  with assms have "py_replace p3distinct [] x = x" by (rule py_replace_absent)
  moreover from assms have "py_replace p3distinct [] (x @ p3distinct) = x"
    by (rule py_replace_applied_suffix)
  ultimately show ?thesis
    by (simp add: clean_construct_name_def apply_suffix_def)
qed

theorem suffix_round_trip_cleaned_witness:
  "\<not> sublist p3distinct (ustr ''SSS'')
   \<and> clean_construct_name (apply_suffix (ustr ''SSS'') p3distinct) = ustr ''SSS''"
proof -
  have a: "\<not> sublist p3distinct (ustr ''SSS'')" by code_simp
  have b: "clean_construct_name (ustr ''SSS'') = ustr ''SSS''" by (simp add: clean_eval)
  from suffix_round_trip_cleaned [OF a] a b show ?thesis by simp
qed

text \<open>
  Claim C7 as stated fails: a name with the \<open>HPLC chromatogram\<close> prefix does not come back.
\<close>

theorem suffix_round_trip_counterexample:
  "\<not> sublist p3distinct (ustr ''HPLC chromatogram - GGG'')
   \<and> clean_construct_name (apply_suffix (ustr ''HPLC chromatogram - GGG'') p3distinct)
       \<noteq> ustr ''HPLC chromatogram - GGG''"
proof -
  have "\<not> sublist p3distinct (ustr ''HPLC chromatogram - GGG'')" by code_simp
  moreover have "clean_construct_name (apply_suffix (ustr ''HPLC chromatogram - GGG'') p3distinct)
      = ustr ''GGG''"
    by (simp add: clean_eval)
  moreover have "ustr ''GGG'' \<noteq> ustr ''HPLC chromatogram - GGG''"
    by (simp add: ustr_def)
  ultimately show ?thesis by simp
qed

end
